theory Spec2Isabelle
  imports Main "HOL-Library.Sublist" "HOL-Library.Multiset"
begin

section \<open>JavaScript values and strings\<close>

text \<open>
  The values the program handles: the parsed JSON bodies of the CMS, the command-line
  configuration, and \<open>undefined\<close>/\<open>null\<close>. Numbers are the integers (a JSON number with a
  fraction is outside the model). An object is the list of its own properties in
  insertion order; the keys of an object are distinct. Strings are ASCII.
\<close>

datatype jsval =
    Undefined
  | Null
  | Bool bool
  | Num int
  | Str string
  | Arr "jsval list"
  | Obj "(string \<times> jsval) list"

datatype error =
    TypeError
  | AxiosError
  | SyntaxError
  | ENOENT
  | ENOTDIR
  | EISDIR
  | EEXIST

text \<open>\<open>String.prototype.split\<close> with a separator that matches single characters: the
  pieces between the separators, \<open>[""]\<close> for the empty string.\<close>

fun split :: "(char \<Rightarrow> bool) \<Rightarrow> string \<Rightarrow> string list" where
  "split sep [] = [[]]"
| "split sep (c # cs) =
     (if sep c then [] # split sep cs
      else (case split sep cs of
              [] \<Rightarrow> [[c]]
            | w # ws \<Rightarrow> (c # w) # ws))"

text \<open>\<open>Array.prototype.join\<close> on an array of strings.\<close>

fun join :: "string \<Rightarrow> string list \<Rightarrow> string" where
  "join sep [] = []"
| "join sep [x] = x"
| "join sep (x # y # ys) = x @ sep @ join sep (y # ys)"

text \<open>\<open>toUpperCase\<close> and \<open>toLowerCase\<close> on an ASCII character. A character is a byte, so
  the functions are those of the source on ASCII strings only (beyond ASCII the source
  maps whole code points); the theorems about derived names are stated for ASCII
  identifiers.\<close>

definition ascii :: "string \<Rightarrow> bool" where
  "ascii s = list_all (\<lambda>c. (of_char c :: nat) < 128) s"

definition toUpperCase :: "char \<Rightarrow> char" where
  "toUpperCase c =
     (if 97 \<le> (of_char c :: nat) \<and> (of_char c :: nat) \<le> 122
      then char_of ((of_char c :: nat) - 32) else c)"

definition toLowerCase :: "char \<Rightarrow> char" where
  "toLowerCase c =
     (if 65 \<le> (of_char c :: nat) \<and> (of_char c :: nat) \<le> 90
      then char_of ((of_char c :: nat) + 32) else c)"

text \<open>\<open>String.prototype.includes\<close>: the argument occurs as a contiguous run.\<close>

fun starts_with :: "string \<Rightarrow> string \<Rightarrow> bool" where
  "starts_with s [] = True"
| "starts_with [] (c # cs) = False"
| "starts_with (d # ds) (c # cs) = (d = c \<and> starts_with ds cs)"

fun string_includes :: "string \<Rightarrow> string \<Rightarrow> bool" where
  "string_includes [] t = (t = [])"
| "string_includes (c # cs) t = (starts_with (c # cs) t \<or> string_includes cs t)"

text \<open>The decimal digits of a natural number and of an integer.\<close>

fun show_nat :: "nat \<Rightarrow> string" where
  "show_nat n =
     (if n < 10 then [char_of (48 + n)]
      else show_nat (n div 10) @ [char_of (48 + n mod 10)])"

declare show_nat.simps [simp del]

definition show_int :: "int \<Rightarrow> string" where
  "show_int i = (if i < 0 then CHR ''-'' # show_nat (nat (- i)) else show_nat (nat i))"

text \<open>A property key is an array index when it is the decimal form (no sign, no leading
  zero) of a number below \<open>4294967295\<close>, that is \<open>2\<^sup>3\<^sup>2 - 1\<close>. Two digit strings of one
  length compare as their numbers do, digit by digit.\<close>

definition is_digit :: "char \<Rightarrow> bool" where
  "is_digit c = (48 \<le> (of_char c :: nat) \<and> (of_char c :: nat) \<le> 57)"

definition digit_value :: "char \<Rightarrow> nat" where
  "digit_value c = (of_char c :: nat) - 48"

fun digits_less :: "string \<Rightarrow> string \<Rightarrow> bool" where
  "digits_less (c # cs) (d # ds) =
     (digit_value c < digit_value d \<or> (digit_value c = digit_value d \<and> digits_less cs ds))"
| "digits_less _ _ = False"

definition canonical_numeric :: "string \<Rightarrow> bool" where
  "canonical_numeric s =
     (s \<noteq> [] \<and> list_all is_digit s \<and> (s = ''0'' \<or> hd s \<noteq> CHR ''0''))"

definition array_index :: "string \<Rightarrow> nat option" where
  "array_index s =
     (if canonical_numeric s \<and>
         (length s < 10 \<or> (length s = 10 \<and> digits_less s ''4294967295''))
      then Some (foldl (\<lambda>a c. 10 * a + digit_value c) 0 s)
      else None)"

text \<open>Template-literal interpolation \<open>${v}\<close>. An array prints its elements separated
  by commas, \<open>null\<close> and \<open>undefined\<close> elements as nothing.\<close>

fun to_string :: "jsval \<Rightarrow> string" where
  "to_string Undefined = ''undefined''"
| "to_string Null = ''null''"
| "to_string (Bool b) = (if b then ''true'' else ''false'')"
| "to_string (Num i) = show_int i"
| "to_string (Str s) = s"
| "to_string (Arr xs) =
     join '','' (map (\<lambda>x. if x = Null \<or> x = Undefined then [] else to_string x) xs)"
| "to_string (Obj props) = ''[object Object]''"

text \<open>Reading a property \<open>x.p\<close> or \<open>x[p]\<close>, for a name \<open>p\<close> that the built-in prototypes
  do not define (the program reads \<open>data\<close>, \<open>schema\<close>, \<open>attributes\<close>, \<open>type\<close>,
  \<open>component\<close> and the own keys of a value).\<close>

fun get :: "jsval \<Rightarrow> string \<Rightarrow> error + jsval" where
  "get Undefined p = Inl TypeError"
| "get Null p = Inl TypeError"
| "get (Obj props) p = Inr (case map_of props p of None \<Rightarrow> Undefined | Some v \<Rightarrow> v)"
| "get (Arr xs) p =
     Inr (case array_index p of
            None \<Rightarrow> Undefined
          | Some i \<Rightarrow> if i < length xs then xs ! i else Undefined)"
| "get (Str s) p =
     Inr (case array_index p of
            None \<Rightarrow> Undefined
          | Some i \<Rightarrow> if i < length s then Str [s ! i] else Undefined)"
| "get (Bool b) p = Inr Undefined"
| "get (Num i) p = Inr Undefined"

text \<open>A chain of property reads \<open>x.p.q.r\<close>: the first read of \<open>undefined\<close> or \<open>null\<close>
  throws.\<close>

fun get_path :: "jsval \<Rightarrow> string list \<Rightarrow> error + jsval" where
  "get_path x [] = Inr x"
| "get_path x (p # ps) = (case get x p of Inl e \<Rightarrow> Inl e | Inr y \<Rightarrow> get_path y ps)"

text \<open>\<open>Object.keys\<close>: the array-index keys in ascending numeric order, then the other
  keys in insertion order; the indices of an array or of a string; nothing for a boolean
  or a number; \<open>undefined\<close> and \<open>null\<close> throw.\<close>

fun Object_keys :: "jsval \<Rightarrow> error + string list" where
  "Object_keys Undefined = Inl TypeError"
| "Object_keys Null = Inl TypeError"
| "Object_keys (Obj props) =
     Inr (map show_nat (sort (List.map_filter array_index (map fst props)))
          @ filter (\<lambda>k. array_index k = None) (map fst props))"
| "Object_keys (Arr xs) = Inr (map show_nat [0..<length xs])"
| "Object_keys (Str s) = Inr (map show_nat [0..<length s])"
| "Object_keys (Bool b) = Inr []"
| "Object_keys (Num i) = Inr []"

text \<open>\<open>x.join(sep)\<close>: defined on arrays only.\<close>

fun array_join :: "jsval \<Rightarrow> string \<Rightarrow> error + string" where
  "array_join (Arr xs) sep =
     Inr (join sep (map (\<lambda>x. if x = Null \<or> x = Undefined then [] else to_string x) xs))"
| "array_join _ sep = Inl TypeError"

section \<open>The name deriver\<close>

text \<open>\<open>segment.charAt(0).toUpperCase() + segment.slice(1)\<close>; the empty segment stays
  empty.\<close>

fun capitalize :: "string \<Rightarrow> string" where
  "capitalize [] = []"
| "capitalize (c # cs) = toUpperCase c # cs"

record names =
  name :: string
  collection :: string

text \<open>\<open>processString\<close>. \<open>str.split('.')[1]\<close> is \<open>undefined\<close> when the string has no
  dot, and the call of \<open>split\<close> on it throws; so does \<open>str.split\<close> when \<open>str\<close> is not a
  string.\<close>

fun processString :: "jsval \<Rightarrow> error + names" where
  "processString (Str str) =
     (let capitalizedSegments = map capitalize (split (\<lambda>c. c = CHR ''-'' \<or> c = CHR ''.'') str)
      in case split (\<lambda>c. c = CHR ''.'') str of
           _ # second # _ \<Rightarrow>
             (let nameSegments = map capitalize (split (\<lambda>c. c = CHR ''-'') second)
              in Inr \<lparr> name = join [] nameSegments,
                       collection = ''Component'' @ join [] capitalizedSegments \<rparr>)
         | _ \<Rightarrow> Inl TypeError)"
| "processString _ = Inl TypeError"

section \<open>The schema resolver\<close>

text \<open>The CMS answers a request for a URL with a status and a parsed body, or not at
  all; a string that does not parse as a URL is \<open>InvalidUrl\<close>. The observable effects are
  the URLs that \<open>axios.get\<close> is called with and the lines printed on the console. Both are
  multisets: the order in which the requests of sibling fields and of their nested
  components are issued, and the order of the diagnostics, depend on the arrival of the
  answers.\<close>

datatype http_reply = InvalidUrl | NoResponse | Response nat jsval

type_synonym server = "string \<Rightarrow> http_reply"

datatype console_line = ErrorLine string error | ErrorOnly error

record io =
  requests :: "string multiset"
  console :: "console_line multiset"

record config =
  component :: jsval
  url :: jsval
  dir :: jsval

text \<open>The settled state of a promise; \<open>Pending\<close> is a promise that has not settled
  within the nesting depth allowed.\<close>

datatype 'a promise = Resolved 'a | Rejected error | Pending

text \<open>\<open>axios.get\<close> rejects with a \<open>TypeError\<close> on an invalid URL, and with its own error
  without a response and on a status outside \<open>200..299\<close>.\<close>

definition axios_get :: "server \<Rightarrow> string \<Rightarrow> error + jsval" where
  "axios_get srv target =
     (case srv target of
        InvalidUrl \<Rightarrow> Inl TypeError
      | NoResponse \<Rightarrow> Inl AxiosError
      | Response status body \<Rightarrow>
          if 200 \<le> status \<and> status < 300
          then Inr (Obj [(''data'', body), (''status'', Num (int status))])
          else Inl AxiosError)"

text \<open>\<open>Promise.all\<close>: rejected as soon as one promise is, resolved with the values in
  the order of the promises once all are.\<close>

fun Promise_all :: "jsval promise list \<Rightarrow> jsval list promise" where
  "Promise_all [] = Resolved []"
| "Promise_all (p # ps) =
     (case p of
        Rejected e \<Rightarrow> Rejected e
      | Resolved v \<Rightarrow>
          (case Promise_all ps of
             Resolved vs \<Rightarrow> Resolved (v # vs)
           | Rejected e \<Rightarrow> Rejected e
           | Pending \<Rightarrow> Pending)
      | Pending \<Rightarrow>
          (case Promise_all ps of
             Rejected e \<Rightarrow> Rejected e
           | _ \<Rightarrow> Pending))"

definition media_block :: string where
  "media_block = '' {\<newline>      data {\<newline>        attributes {\<newline>          url\<newline>        }\<newline>      }\<newline>    }''"

definition request_url :: "jsval \<Rightarrow> jsval \<Rightarrow> string" where
  "request_url u c = to_string u @ ''/api/content-type-builder/components/'' @ to_string c"

text \<open>\<open>fetchComponentFields\<close> and \<open>parseFields\<close>. The first argument bounds the depth of
  nested components that is followed. The promise returned by \<open>parseFields\<close> is returned
  from inside the \<open>try\<close> without being awaited, so its rejection is the rejection of
  \<open>fetchComponentFields\<close>; the \<open>catch\<close> sees the failure of the request and of the
  property reads only.\<close>

function (sequential) fetchComponentFields :: "nat \<Rightarrow> config \<Rightarrow> server \<Rightarrow> jsval \<Rightarrow> jsval \<Rightarrow> io \<Rightarrow> jsval promise \<times> io"
  and parseFields :: "nat \<Rightarrow> config \<Rightarrow> server \<Rightarrow> jsval \<Rightarrow> io \<Rightarrow> jsval promise \<times> io"
  and fieldPromises :: "nat \<Rightarrow> config \<Rightarrow> server \<Rightarrow> jsval \<Rightarrow> string list \<Rightarrow> io \<Rightarrow> jsval promise list \<times> io"
  and fieldPromise :: "nat \<Rightarrow> config \<Rightarrow> server \<Rightarrow> jsval \<Rightarrow> string \<Rightarrow> io \<Rightarrow> jsval promise \<times> io"
where
  "fetchComponentFields 0 cfg srv u c s = (Pending, s)"
| "fetchComponentFields (Suc n) cfg srv u c s =
     (let s1 = s\<lparr>requests := add_mset (request_url u c) (requests s)\<rparr>;
          caught = (\<lambda>e. (Resolved Null,
                     s1\<lparr>console := add_mset
                        (ErrorLine (''Error fetching component '' @ to_string c @ '':'') e)
                        (console s1)\<rparr>))
      in case axios_get srv (request_url u c) of
           Inl e \<Rightarrow> caught e
         | Inr response \<Rightarrow>
             (case get_path response [''data'', ''data'', ''schema'', ''attributes''] of
                Inl e \<Rightarrow> caught e
              | Inr attributes \<Rightarrow> parseFields n cfg srv attributes s1))"
| "parseFields n cfg srv attributes s =
     (case Object_keys attributes of
        Inl e \<Rightarrow> (Rejected e, s)
      | Inr keys \<Rightarrow>
          (case fieldPromises n cfg srv attributes keys s of
             (ps, s1) \<Rightarrow> (map_promise Arr (Promise_all ps), s1)))"
| "fieldPromises n cfg srv attributes [] s = ([], s)"
| "fieldPromises n cfg srv attributes (field # rest) s =
     (case fieldPromise n cfg srv attributes field s of
        (p, s1) \<Rightarrow>
          (case fieldPromises n cfg srv attributes rest s1 of
             (ps, s2) \<Rightarrow> (p # ps, s2)))"
| "fieldPromise n cfg srv attributes field s =
     (case get_path attributes [field, ''type''] of
        Inl e \<Rightarrow> (Rejected e, s)
      | Inr t \<Rightarrow>
          if t = Str ''media'' then (Resolved (Str (field @ media_block)), s)
          else if t = Str ''component'' then
            (case get_path attributes [field, ''component''] of
               Inl e \<Rightarrow> (Rejected e, s)
             | Inr c \<Rightarrow>
                 (case fetchComponentFields n cfg srv (url cfg) c s of
                    (Resolved componentFields, s1) \<Rightarrow>
                      (case array_join componentFields ''\<newline>      '' of
                         Inl e \<Rightarrow> (Rejected e, s1)
                       | Inr body \<Rightarrow>
                           (Resolved (Str (field @ '' {\<newline>      '' @ body @ ''\<newline>    }'')), s1))
                  | (Rejected e, s1) \<Rightarrow> (Rejected e, s1)
                  | (Pending, s1) \<Rightarrow> (Pending, s1)))
          else (Resolved (Str field), s))"

  by pat_completeness auto

termination
  by (relation "inv_image (less_than <*lex*> less_than <*lex*> less_than)
     (\<lambda>x. case x of
        Inl (Inl (n, cfg, srv, u, c, s)) \<Rightarrow> (n, 0::nat, 0::nat)
      | Inl (Inr (n, cfg, srv, a, s)) \<Rightarrow> (n, 3, 0)
      | Inr (Inl (n, cfg, srv, a, ks, s)) \<Rightarrow> (n, 2, length ks)
      | Inr (Inr (n, cfg, srv, a, k, s)) \<Rightarrow> (n, 1, 0))") auto

section \<open>Paths and the file system\<close>

text \<open>\<open>path.join\<close> and \<open>path.normalize\<close> of Node on POSIX. \<open>normalizeString\<close> walks the
  segments between the slashes: empty segments and \<open>.\<close> are dropped, \<open>..\<close> removes the
  segment before it (above the root it is dropped, in a relative path it is kept). Here
  it returns the list of the remaining segments.\<close>

definition normalize_step :: "bool \<Rightarrow> string list \<Rightarrow> string \<Rightarrow> string list" where
  "normalize_step allowAboveRoot res seg =
     (if seg = [] \<or> seg = ''.'' then res
      else if seg = ''..'' then
        (if res \<noteq> [] \<and> last res \<noteq> ''..'' then butlast res
         else if allowAboveRoot then res @ [''..''] else res)
      else res @ [seg])"

definition normalizeString :: "string \<Rightarrow> bool \<Rightarrow> string list" where
  "normalizeString path allowAboveRoot =
     foldl (normalize_step allowAboveRoot) [] (split (\<lambda>c. c = CHR ''/'') path)"

definition normalize :: "string \<Rightarrow> string" where
  "normalize path =
     (if path = [] then ''.''
      else
        (let isAbsolute = (hd path = CHR ''/'');
             trailingSeparator = (last path = CHR ''/'');
             segs = normalizeString path (\<not> isAbsolute)
         in if segs = [] then (if isAbsolute then ''/'' else if trailingSeparator then ''./'' else ''.'')
            else (if isAbsolute then ''/'' else []) @ join ''/'' segs
                 @ (if trailingSeparator then ''/'' else [])))"

definition path_join_strings :: "string list \<Rightarrow> string" where
  "path_join_strings args =
     (case filter (\<lambda>arg. arg \<noteq> []) args of
        [] \<Rightarrow> ''.''
      | parts \<Rightarrow> normalize (join ''/'' parts))"

text \<open>An argument that is not a string makes \<open>path.join\<close> throw a \<open>TypeError\<close>.\<close>

fun string_args :: "jsval list \<Rightarrow> error + string list" where
  "string_args [] = Inr []"
| "string_args (Str s # rest) =
     (case string_args rest of Inl e \<Rightarrow> Inl e | Inr ss \<Rightarrow> Inr (s # ss))"
| "string_args (_ # rest) = Inl TypeError"

definition path_join :: "jsval list \<Rightarrow> error + string" where
  "path_join args =
     (case string_args args of Inl e \<Rightarrow> Inl e | Inr ss \<Rightarrow> Inr (path_join_strings ss))"

text \<open>The file system maps the segments of an absolute path to a file with its contents
  or to a directory; the root is the empty list of segments. Every path the program uses
  starts with the working directory, which is absolute.\<close>

datatype node = File string | Dir

type_synonym filesystem = "string list \<Rightarrow> node option"

definition resolve :: "string \<Rightarrow> string list" where
  "resolve path = normalizeString path False"

definition existsSync :: "filesystem \<Rightarrow> string \<Rightarrow> bool" where
  "existsSync fs path = (fs (resolve path) \<noteq> None)"

text \<open>\<open>mkdirSync\<close> with \<open>recursive: true\<close> creates the missing directories from the root
  down and fails on a file in the way.\<close>

fun mkdirs :: "filesystem \<Rightarrow> string list list \<Rightarrow> error + filesystem" where
  "mkdirs fs [] = Inr fs"
| "mkdirs fs (p # ps) =
     (case fs p of
        None \<Rightarrow> mkdirs (fs(p \<mapsto> Dir)) ps
      | Some Dir \<Rightarrow> mkdirs fs ps
      | Some (File content) \<Rightarrow> Inl (if ps = [] then EEXIST else ENOTDIR))"

definition mkdirSync :: "filesystem \<Rightarrow> string \<Rightarrow> error + filesystem" where
  "mkdirSync fs path = mkdirs fs (prefixes (resolve path))"

text \<open>\<open>appendFileSync\<close> creates the file when it is missing and needs its directory to
  exist.\<close>

definition appendFileSync :: "filesystem \<Rightarrow> string \<Rightarrow> string \<Rightarrow> error + filesystem" where
  "appendFileSync fs path content =
     (let p = resolve path
      in if p = [] then Inl EISDIR
         else (case fs (butlast p) of
                 None \<Rightarrow> Inl ENOENT
               | Some (File other) \<Rightarrow> Inl ENOTDIR
               | Some Dir \<Rightarrow>
                   (case fs p of
                      None \<Rightarrow> Inr (fs(p \<mapsto> File content))
                    | Some (File old) \<Rightarrow> Inr (fs(p \<mapsto> File (old @ content)))
                    | Some Dir \<Rightarrow> Inl EISDIR)))"

definition readFileSync :: "filesystem \<Rightarrow> string \<Rightarrow> error + string" where
  "readFileSync fs path =
     (case fs (resolve path) of
        None \<Rightarrow> Inl ENOENT
      | Some Dir \<Rightarrow> Inl EISDIR
      | Some (File content) \<Rightarrow> Inr content)"

section \<open>The artifact emitter\<close>

text \<open>\<open>name.charAt(0).toLowerCase() + name.slice(1)\<close>.\<close>

fun lowerFirst :: "string \<Rightarrow> string" where
  "lowerFirst [] = []"
| "lowerFirst (c # cs) = toLowerCase c # cs"

text \<open>The four templates of the main function, with the line breaks and the indentation
  of the source.\<close>

definition gqlFragment :: "string \<Rightarrow> string \<Rightarrow> string \<Rightarrow> string" where
  \<open>gqlFragment nm coll selections =
     ''\<newline>    import { gql } from 'graphql-tag';\<newline>\<newline>    export const '' @ nm @ '' = gql`\<newline>      fragment '' @ nm @ '' on '' @ coll @ '' {\<newline>        '' @ selections @ ''\<newline>      }\<newline>  `;''\<close>

definition componentCode :: "string \<Rightarrow> string" where
  \<open>componentCode nm =
     ''\<newline>    <template>\<newline>      <div>\<newline>        {{ data }}\<newline>      </div>\<newline>    </template>\<newline>\<newline>    <script setup lang="ts">\<newline>      import type { '' @ nm @ '' } from './'' @ lowerFirst nm @ ''.types.ts';\<newline>\<newline>      defineProps({\<newline>        data: {\<newline>          type: Object as PropType<'' @ nm @ ''>,\<newline>          required: true,\<newline>        },\<newline>      });\<newline>    </script>\<newline>  ''\<close>

definition componentTypesCode :: "string \<Rightarrow> string" where
  \<open>componentTypesCode nm =
     ''\<newline>    /**\<newline>     * '' @ nm @ '' section types.\<newline>     */\<newline>    export interface '' @ nm @ '' {\<newline>    }\<newline>  ''\<close>

definition indexCode :: "string \<Rightarrow> string" where
  \<open>indexCode nm =
     ''export { '' @ nm @ '' } from './sections/'' @ lowerFirst nm @ ''';\<newline>''\<close>

section \<open>The main function\<close>

text \<open>The loop over the command-line arguments: the value of a flag is the next
  argument, \<open>undefined\<close> when the flag is the last one.\<close>

definition initial_config :: config where
  "initial_config = \<lparr> component = Null, url = Str ''http://localhost:1337'', dir = Str [] \<rparr>"

fun parse_args :: "string list \<Rightarrow> config \<Rightarrow> config" where
  "parse_args [] cfg = cfg"
| "parse_args (arg # rest) cfg =
     (let next = (case rest of [] \<Rightarrow> Undefined | v # _ \<Rightarrow> Str v)
      in parse_args rest
           (if arg = ''-i'' \<or> arg = ''--component'' then cfg\<lparr>component := next\<rparr>
            else if arg = ''--url'' then cfg\<lparr>url := next\<rparr>
            else if arg = ''--dir'' then cfg\<lparr>dir := next\<rparr>
            else cfg))"

text \<open>The three paths that the main function stores in the configuration.\<close>

record dirs =
  sectionsDir :: string
  sectionsFragmentsDir :: string
  sectionsFragmentsIndexDir :: string

definition config_dirs :: "string \<Rightarrow> config \<Rightarrow> error + dirs" where
  "config_dirs cwd cfg =
     (case path_join [Str cwd, dir cfg, Str ''components'', Str ''sections''] of
        Inl e \<Rightarrow> Inl e
      | Inr d1 \<Rightarrow>
     (case path_join [Str cwd, dir cfg, Str ''graphql'', Str ''fragments'', Str ''sections''] of
        Inl e \<Rightarrow> Inl e
      | Inr d2 \<Rightarrow>
     (case path_join [Str cwd, dir cfg, Str ''graphql'', Str ''fragments'', Str ''index.ts''] of
        Inl e \<Rightarrow> Inl e
      | Inr d3 \<Rightarrow>
          Inr \<lparr> sectionsDir = d1, sectionsFragmentsDir = d2, sectionsFragmentsIndexDir = d3 \<rparr>)))"

text \<open>The two directories are created when nothing exists at their paths. A failure of
  the second leaves the first created.\<close>

definition ensure_dir :: "filesystem \<Rightarrow> string \<Rightarrow> error + filesystem" where
  "ensure_dir fs path = (if \<not> existsSync fs path then mkdirSync fs path else Inr fs)"

definition setup_dirs :: "dirs \<Rightarrow> filesystem \<Rightarrow> error option \<times> filesystem" where
  "setup_dirs d fs =
     (case ensure_dir fs (sectionsDir d) of
        Inl e \<Rightarrow> (Some e, fs)
      | Inr fs1 \<Rightarrow>
          (case ensure_dir fs1 (sectionsFragmentsDir d) of
             Inl e \<Rightarrow> (Some e, fs1)
           | Inr fs2 \<Rightarrow> (None, fs2)))"

text \<open>The code formatter is a parameter: a function of the code and of the parser name
  that returns the formatted code or throws.\<close>

type_synonym formatter = "string \<Rightarrow> string \<Rightarrow> error + string"

record artifacts = names +
  fragmentCode :: string
  formattedComponentCode :: string
  formattedComponentTypesCode :: string
  barrelLine :: string

text \<open>The names, the four templates and the formatting (lines 140 to 184).
  \<open>attributes.join\<close> throws when the fetch returned \<open>null\<close>.\<close>

definition render :: "formatter \<Rightarrow> jsval \<Rightarrow> jsval \<Rightarrow> error + artifacts" where
  "render formatCode componentId attributes =
     (case processString componentId of
        Inl e \<Rightarrow> Inl e
      | Inr n \<Rightarrow>
     (case array_join attributes ''\<newline>    '' of
        Inl e \<Rightarrow> Inl e
      | Inr selections \<Rightarrow>
     (case formatCode (gqlFragment (name n) (collection n) selections) ''typescript'' of
        Inl e \<Rightarrow> Inl e
      | Inr fragment \<Rightarrow>
     (case formatCode (componentCode (name n)) ''vue'' of
        Inl e \<Rightarrow> Inl e
      | Inr stub \<Rightarrow>
     (case formatCode (componentTypesCode (name n)) ''typescript'' of
        Inl e \<Rightarrow> Inl e
      | Inr types \<Rightarrow>
          Inr \<lparr> name = name n, collection = collection n,
                 fragmentCode = fragment, formattedComponentCode = stub,
                 formattedComponentTypesCode = types,
                 barrelLine = indexCode (name n) \<rparr>)))))"

text \<open>The paths of the three files (lines 187 to 189).\<close>

definition fragmentFilePath :: "dirs \<Rightarrow> string \<Rightarrow> string" where
  "fragmentFilePath d nm = path_join_strings [sectionsFragmentsDir d, lowerFirst nm @ ''.ts'']"

definition componentFilePath :: "dirs \<Rightarrow> string \<Rightarrow> string" where
  "componentFilePath d nm = path_join_strings [sectionsDir d, nm @ ''.vue'']"

definition componentTypesFilePath :: "dirs \<Rightarrow> string \<Rightarrow> string" where
  "componentTypesFilePath d nm = path_join_strings [sectionsDir d, lowerFirst nm @ ''.types.ts'']"

text \<open>A file is written when nothing exists at its path; the export line is appended to
  the index file unless the file exists and contains it (lines 192 to 214). What was
  written before a failure stays.\<close>

definition create_file :: "filesystem \<Rightarrow> string \<Rightarrow> string \<Rightarrow> error + filesystem" where
  "create_file fs path content =
     (if \<not> existsSync fs path then appendFileSync fs path content else Inr fs)"

definition update_index :: "filesystem \<Rightarrow> string \<Rightarrow> string \<Rightarrow> error + filesystem" where
  "update_index fs path line =
     (if existsSync fs path then
        (case readFileSync fs path of
           Inl e \<Rightarrow> Inl e
         | Inr indexFileContent \<Rightarrow>
             if string_includes indexFileContent line then Inr fs
             else appendFileSync fs path line)
      else appendFileSync fs path line)"

definition write_files :: "dirs \<Rightarrow> artifacts \<Rightarrow> filesystem \<Rightarrow> error option \<times> filesystem" where
  "write_files d a fs =
     (case create_file fs (fragmentFilePath d (name a)) (fragmentCode a) of
        Inl e \<Rightarrow> (Some e, fs)
      | Inr fs1 \<Rightarrow>
     (case create_file fs1 (componentFilePath d (name a)) (formattedComponentCode a) of
        Inl e \<Rightarrow> (Some e, fs1)
      | Inr fs2 \<Rightarrow>
     (case create_file fs2 (componentTypesFilePath d (name a)) (formattedComponentTypesCode a) of
        Inl e \<Rightarrow> (Some e, fs2)
      | Inr fs3 \<Rightarrow>
     (case update_index fs3 (sectionsFragmentsIndexDir d) (barrelLine a) of
        Inl e \<Rightarrow> (Some e, fs3)
      | Inr fs4 \<Rightarrow> (None, fs4)))))"

text \<open>The body of the main function, from the arguments to the files. The result is
  resolved when the body ran to its end, rejected with the error that the \<open>catch\<close> then
  prints, and pending when the fetch does not settle.\<close>

definition main_body ::
  "formatter \<Rightarrow> server \<Rightarrow> nat \<Rightarrow> string \<Rightarrow> string list \<Rightarrow> filesystem \<times> io \<Rightarrow> unit promise \<times> filesystem \<times> io" where
  "main_body formatCode srv depth cwd args w =
     (let cfg = parse_args args initial_config; fs = fst w; s = snd w
      in case config_dirs cwd cfg of
           Inl e \<Rightarrow> (Rejected e, fs, s)
         | Inr d \<Rightarrow>
        (case setup_dirs d fs of
           (Some e, fs1) \<Rightarrow> (Rejected e, fs1, s)
         | (None, fs1) \<Rightarrow>
        (case fetchComponentFields depth cfg srv (url cfg) (component cfg) s of
           (Pending, s1) \<Rightarrow> (Pending, fs1, s1)
         | (Rejected e, s1) \<Rightarrow> (Rejected e, fs1, s1)
         | (Resolved attributes, s1) \<Rightarrow>
        (case render formatCode (component cfg) attributes of
           Inl e \<Rightarrow> (Rejected e, fs1, s1)
         | Inr a \<Rightarrow>
        (case write_files d a fs1 of
           (Some e, fs2) \<Rightarrow> (Rejected e, fs2, s1)
         | (None, fs2) \<Rightarrow> (Resolved (), fs2, s1))))))"

definition main ::
  "formatter \<Rightarrow> server \<Rightarrow> nat \<Rightarrow> string \<Rightarrow> string list \<Rightarrow> filesystem \<times> io \<Rightarrow> filesystem \<times> io" where
  "main formatCode srv depth cwd args w =
     (case main_body formatCode srv depth cwd args w of
        (Rejected e, fs, s) \<Rightarrow> (fs, s\<lparr>console := add_mset (ErrorOnly e) (console s)\<rparr>)
      | (_, fs, s) \<Rightarrow> (fs, s))"

section \<open>Effects, evaluation order and example inputs\<close>

text \<open>The effects of a computation are added to the requests and to the console it
  starts with; \<open>frame\<close> says that a computation does this and that its result does not
  depend on what was logged before.\<close>

definition no_io :: io where
  "no_io = \<lparr> requests = {#}, console = {#} \<rparr>"

definition io_append :: "io \<Rightarrow> io \<Rightarrow> io" where
  "io_append s d = \<lparr> requests = requests s + requests d, console = console s + console d \<rparr>"

definition frame :: "(io \<Rightarrow> 'a \<times> io) \<Rightarrow> bool" where
  "frame f = (\<exists>r d. \<forall>s. f s = (r, io_append s d))"

definition new_requests :: "(io \<Rightarrow> 'a \<times> io) \<Rightarrow> string multiset" where
  "new_requests f = requests (snd (f no_io))"

text \<open>The runtime settles the promises of the fields in an order of its own, and
  \<open>Promise.all\<close> stores the value of the promise at index \<open>i\<close> at index \<open>i\<close> of its
  result. \<open>settle\<close> runs the callbacks of the fields in a given order of the indices;
  \<open>parseFields_in_order\<close> is \<open>parseFields\<close> under that order.\<close>

fun settle :: "nat \<Rightarrow> config \<Rightarrow> server \<Rightarrow> jsval \<Rightarrow> string list \<Rightarrow> nat list
    \<Rightarrow> jsval promise list \<Rightarrow> io \<Rightarrow> jsval promise list \<times> io" where
  "settle n cfg srv attributes keys [] ps s = (ps, s)"
| "settle n cfg srv attributes keys (i # order) ps s =
     (case fieldPromise n cfg srv attributes (keys ! i) s of
        (p, s1) \<Rightarrow> settle n cfg srv attributes keys order (ps[i := p]) s1)"

definition parseFields_in_order :: "nat list \<Rightarrow> nat \<Rightarrow> config \<Rightarrow> server \<Rightarrow> jsval \<Rightarrow> io \<Rightarrow> jsval promise \<times> io" where
  "parseFields_in_order order n cfg srv attributes s =
     (case Object_keys attributes of
        Inl e \<Rightarrow> (Rejected e, s)
      | Inr keys \<Rightarrow>
          (case settle n cfg srv attributes keys order (replicate (length keys) Pending) s of
             (ps, s1) \<Rightarrow> (map_promise Arr (Promise_all ps), s1)))"

text \<open>The schema of the example: a scalar, a media field and a component \<open>ns.card\<close> whose
  schema has the one scalar field \<open>text\<close>.\<close>

definition example_attributes :: jsval where
  "example_attributes =
     Obj [(''title'', Obj [(''type'', Str ''string'')]),
          (''image'', Obj [(''type'', Str ''media'')]),
          (''hero'', Obj [(''type'', Str ''component''), (''component'', Str ''ns.card'')])]"

definition schema_body :: "jsval \<Rightarrow> jsval" where
  "schema_body attributes = Obj [(''data'', Obj [(''schema'', Obj [(''attributes'', attributes)])])]"

definition example_config :: config where
  "example_config = \<lparr> component = Str ''ns.page'', url = Str ''http://localhost:1337'', dir = Str ''foo'' \<rparr>"

definition example_server :: server where
  "example_server target =
     (if target = ''http://localhost:1337/api/content-type-builder/components/ns.page''
      then Response 200 (schema_body example_attributes)
      else if target = ''http://localhost:1337/api/content-type-builder/components/ns.card''
      then Response 200 (schema_body (Obj [(''text'', Obj [(''type'', Str ''string'')])]))
      else Response 404 Null)"

text \<open>The same CMS with the schema of \<open>ns.card\<close> missing.\<close>

definition failing_server :: server where
  "failing_server target =
     (if target = ''http://localhost:1337/api/content-type-builder/components/ns.page''
      then Response 200 (schema_body example_attributes)
      else Response 404 Null)"

text \<open>A CMS that answers every request with a body whose \<open>schema\<close> has no \<open>attributes\<close>.\<close>

definition no_attributes_server :: server where
  "no_attributes_server target = Response 200 (Obj [(''data'', Obj [(''schema'', Obj [])])])"

text \<open>A CMS that serves the schema of \<open>ns.page\<close> under two base URLs and the schema of
  \<open>ns.card\<close> under the first only.\<close>

definition mirror_server :: server where
  "mirror_server target =
     (if target = ''http://localhost:1337/api/content-type-builder/components/ns.page''
        \<or> target = ''http://127.0.0.1:1337/api/content-type-builder/components/ns.page''
      then Response 200 (schema_body example_attributes)
      else if target = ''http://localhost:1337/api/content-type-builder/components/ns.card''
      then Response 200 (schema_body (Obj [(''text'', Obj [(''type'', Str ''string'')])]))
      else Response 404 Null)"

text \<open>The separator of path segments, and the segments that normalisation keeps as they
  are.\<close>

abbreviation (input) slash :: "char \<Rightarrow> bool" where "slash \<equiv> (\<lambda>c. c = CHR ''/'')"

definition plain :: "string \<Rightarrow> bool" where
  "plain seg = (seg \<noteq> [] \<and> seg \<noteq> ''.'' \<and> seg \<noteq> ''..'')"

text \<open>A run of the tool with \<open>--dir foo\<close> in the working directory \<open>/work\<close>, with a
  formatter that puts the parser name before the code, and a file system that holds the
  working directory only.\<close>

definition example_args :: "string list" where
  "example_args = [''-i'', ''ns.page'', ''--dir'', ''foo'']"

definition example_formatter :: formatter where
  "example_formatter code parser = Inr (parser @ '':'' @ code)"

definition example_fs :: filesystem where
  "example_fs = [[] \<mapsto> Dir, [''work''] \<mapsto> Dir]"


text \<open>The number of positions at which a string occurs in another.\<close>

fun occurrences :: "string \<Rightarrow> string \<Rightarrow> nat" where
  "occurrences [] t = (if t = [] then 1 else 0)"
| "occurrences (c # cs) t = (if starts_with (c # cs) t then 1 else 0) + occurrences cs t"

text \<open>The artifacts that the main function computes from the configuration and the CMS,
  between the set-up of the directories and the writing of the files (lines 138 to
  184).\<close>

definition produced :: "formatter \<Rightarrow> server \<Rightarrow> nat \<Rightarrow> config \<Rightarrow> io \<Rightarrow> artifacts promise" where
  "produced formatCode srv depth cfg s =
     (case fst (fetchComponentFields depth cfg srv (url cfg) (component cfg) s) of
        Resolved attributes \<Rightarrow>
          (case render formatCode (component cfg) attributes of
             Inl e \<Rightarrow> Rejected e
           | Inr a \<Rightarrow> Resolved a)
      | Rejected e \<Rightarrow> Rejected e
      | Pending \<Rightarrow> Pending)"

text \<open>Two CMSs, each under its configured URL, give the same answer to the request for
  every component that is requested in a multiset of requests of the first.\<close>

definition same_answers :: "config \<Rightarrow> server \<Rightarrow> config \<Rightarrow> server \<Rightarrow> string multiset \<Rightarrow> bool" where
  "same_answers cfg srv cfg' srv' M =
     (\<forall>c. request_url (url cfg) c \<in># M \<longrightarrow>
          srv' (request_url (url cfg') c) = srv (request_url (url cfg) c))"

text \<open>A second configuration and CMS: another base URL and another target directory,
  with the same schemas for \<open>ns.page\<close> and \<open>ns.card\<close>.\<close>

definition other_config :: config where
  "other_config = \<lparr> component = Str ''ns.page'', url = Str ''http://127.0.0.1:1337'', dir = Str ''bar'' \<rparr>"

definition other_server :: server where
  "other_server target =
     (if target = ''http://127.0.0.1:1337/api/content-type-builder/components/ns.page''
      then Response 200 (schema_body example_attributes)
      else if target = ''http://127.0.0.1:1337/api/content-type-builder/components/ns.card''
      then Response 200 (schema_body (Obj [(''text'', Obj [(''type'', Str ''string'')])]))
      else NoResponse)"

section \<open>Properties of the name deriver\<close>

lemma split_no_sep: "\<forall>c\<in>set w. \<not> sep c \<Longrightarrow> split sep w = [w]"
  by (induction w) auto

lemma split_at_sep:
  "\<forall>c\<in>set w. \<not> sep c \<Longrightarrow> sep d \<Longrightarrow> split sep (w @ d # rest) = w # split sep rest"
  by (induction w) auto

lemma split_not_Nil: "split sep s \<noteq> []"
  by (induction s) (auto split: list.splits)

lemma split_join:
  "segs \<noteq> [] \<Longrightarrow> \<forall>s\<in>set segs. \<forall>c\<in>set s. \<not> sep c \<Longrightarrow> sep d \<Longrightarrow>
   split sep (join [d] segs) = segs"
proof (induction "[d]" segs rule: join.induct)
  case 1
  then show ?case by simp
next
  case (2 x)
  then show ?case by (simp add: split_no_sep)
next
  case (3 x y ys)
  then show ?case by (simp add: split_at_sep)
qed

lemma join_empty_sep: "join [] xs = concat xs"
  by (induction "[]::string" xs rule: join.induct) auto

lemma join_no_sep:
  "\<forall>s\<in>set segs. \<forall>c\<in>set s. \<not> sep c \<Longrightarrow> \<not> sep d \<Longrightarrow>
   \<forall>c\<in>set (join [d] segs). \<not> sep c"
  by (induction "[d]" segs rule: join.induct) auto

lemma toUpperCase_letters:
  "toUpperCase CHR ''a'' = CHR ''A''" "toUpperCase CHR ''b'' = CHR ''B''"
  "toUpperCase CHR ''c'' = CHR ''C''" "toUpperCase CHR ''n'' = CHR ''N''"
  "toUpperCase CHR ''s'' = CHR ''S''"
  by code_simp+

text \<open>
  C4. For an ASCII identifier \<open>ns.s\<^sub>1-...-s\<^sub>k\<close> whose namespace and segments contain neither
  a dot nor a hyphen, \<open>processString\<close> returns as name the capitalised segments joined, and as
  collection \<open>Component\<close> followed by the capitalised namespace and the capitalised
  segments: \<open>ABC\<close> and \<open>ComponentNsABC\<close> for \<open>ns.a-b-c\<close>.
\<close>

theorem processString_kebab:
  assumes ns: "\<forall>c\<in>set ns. c \<noteq> CHR ''-'' \<and> c \<noteq> CHR ''.''"
    and segs: "\<forall>s\<in>set segs. \<forall>c\<in>set s. c \<noteq> CHR ''-'' \<and> c \<noteq> CHR ''.''"
    and ne: "segs \<noteq> []"
    and asc: "ascii (ns @ ''.'' @ join ''-'' segs)"
  shows "processString (Str (ns @ ''.'' @ join ''-'' segs)) =
           Inr \<lparr> name = concat (map capitalize segs),
                  collection = ''Component'' @ capitalize ns @ concat (map capitalize segs) \<rparr>"
proof -
  let ?rest = "join ''-'' segs"
  have rest_nodot: "\<forall>c\<in>set ?rest. \<not> (c = CHR ''.'')"
    using join_no_sep [of segs "\<lambda>c. c = CHR ''.''" "CHR ''-''"] segs by simp
  have all: "split (\<lambda>c. c = CHR ''-'' \<or> c = CHR ''.'') (ns @ ''.'' @ ?rest) = ns # segs"
  proof -
    have "split (\<lambda>c. c = CHR ''-'' \<or> c = CHR ''.'') (ns @ CHR ''.'' # ?rest)
            = ns # split (\<lambda>c. c = CHR ''-'' \<or> c = CHR ''.'') ?rest"
      using ns by (intro split_at_sep) auto
    moreover have "split (\<lambda>c. c = CHR ''-'' \<or> c = CHR ''.'') ?rest = segs"
      using segs ne by (intro split_join) auto
    ultimately show ?thesis by simp
  qed
  have dots: "split (\<lambda>c. c = CHR ''.'') (ns @ ''.'' @ ?rest) = [ns, ?rest]"
  proof -
    have "split (\<lambda>c. c = CHR ''.'') (ns @ CHR ''.'' # ?rest)
            = ns # split (\<lambda>c. c = CHR ''.'') ?rest"
      using ns by (intro split_at_sep) auto
    then show ?thesis using rest_nodot by (simp add: split_no_sep)
  qed
  have hyphens: "split (\<lambda>c. c = CHR ''-'') ?rest = segs"
    using segs ne by (intro split_join) auto
  show ?thesis
    by (simp add: all dots hyphens join_empty_sep del: append.simps)
qed

theorem processString_kebab_witness:
  "processString (Str ''ns.a-b-c'') = Inr \<lparr> name = ''ABC'', collection = ''ComponentNsABC'' \<rparr>"
proof -
  have "processString (Str (''ns'' @ ''.'' @ join ''-'' [''a'', ''b'', ''c''])) =
       Inr \<lparr> name = concat (map capitalize [''a'', ''b'', ''c'']),
              collection = ''Component'' @ capitalize ''ns''
                 @ concat (map capitalize [''a'', ''b'', ''c'']) \<rparr>"
    by (rule processString_kebab) (simp_all add: ascii_def)
  then show ?thesis by (simp add: toUpperCase_letters)
qed

text \<open>
  C7. For an ASCII identifier with a dot-free namespace, \<open>processString\<close> returns; the
  collection begins with \<open>Component\<close>, and the name is the join of the capitalised
  segments of the part after the first dot: the namespace segment is not among them, and
  the name is the same whatever the namespace is.
\<close>

theorem processString_prefix_and_name:
  assumes ns: "CHR ''.'' \<notin> set ns"
    and asc: "ascii (ns @ ''.'' @ rest)"
  shows "\<exists>r. processString (Str (ns @ ''.'' @ rest)) = Inr r
           \<and> prefix ''Component'' (collection r)
           \<and> name r = concat (map capitalize
                 (split (\<lambda>c. c = CHR ''-'') (hd (split (\<lambda>c. c = CHR ''.'') rest))))"
proof -
  obtain second more where rest: "split (\<lambda>c. c = CHR ''.'') rest = second # more"
    using split_not_Nil [of "\<lambda>c. c = CHR ''.''" rest] by (cases "split (\<lambda>c. c = CHR ''.'') rest") auto
  have "split (\<lambda>c. c = CHR ''.'') (ns @ ''.'' @ rest) = ns # second # more"
    using ns rest split_at_sep [of ns "\<lambda>c. c = CHR ''.''" "CHR ''.''" rest] by auto
  then show ?thesis
    using rest by (simp add: join_empty_sep del: append.simps)
qed

theorem processString_prefix_and_name_witness:
  "CHR ''.'' \<notin> set ''nav'' \<and> ascii ''nav.subnav'' \<and>
   (\<exists>r. processString (Str ''nav.subnav'') = Inr r
        \<and> prefix ''Component'' (collection r) \<and> name r = ''Subnav'')"
  using processString_prefix_and_name [of "''nav''" "''subnav''"]
  by (simp add: toUpperCase_letters ascii_def)

section \<open>Properties of the schema resolver\<close>

declare parseFields.simps [simp del] fieldPromise.simps [simp del]

lemma io_append_assoc: "io_append (io_append s d) e = io_append s (io_append d e)"
  by (simp add: io_append_def add.assoc)

lemma io_append_no_io [simp]: "io_append s no_io = s" "io_append no_io s = s"
  by (simp_all add: io_append_def no_io_def)

lemma frameI: "(\<And>s. f s = (r, io_append s d)) \<Longrightarrow> frame f"
  unfolding frame_def by blast

lemma frameE: "frame f \<Longrightarrow> (\<And>r d. (\<And>s. f s = (r, io_append s d)) \<Longrightarrow> thesis) \<Longrightarrow> thesis"
  unfolding frame_def by blast

lemma log_request:
  "s\<lparr>requests := add_mset r (requests s)\<rparr> = io_append s \<lparr> requests = {#r#}, console = {#} \<rparr>"
  by (simp add: io_append_def)

lemma log_console:
  "s\<lparr>console := add_mset l (console s)\<rparr> = io_append s \<lparr> requests = {#}, console = {#l#} \<rparr>"
  by (simp add: io_append_def)

lemma frames:
  fixes s :: io
  shows "frame (fetchComponentFields n cfg srv u c)"
    and "frame (parseFields n cfg srv a)"
    and "frame (fieldPromises n cfg srv a ks)"
    and "frame (fieldPromise n cfg srv a k)"
proof (induct n cfg srv u c s and n cfg srv a s and n cfg srv a ks s and n cfg srv a k s
    rule: fetchComponentFields_parseFields_fieldPromises_fieldPromise.induct)
  case (1 cfg srv u c s)
  show ?case by (rule frameI [where d = no_io]) simp
next
  case (2 n cfg srv u c s)
  show ?case
  proof (cases "axios_get srv (request_url u c)")
    case (Inl e)
    then show ?thesis
      by (intro frameI) (simp add: log_request log_console io_append_assoc del: io.simps)
  next
    case (Inr response)
    note resp = this
    show ?thesis
    proof (cases "get_path response [''data'', ''data'', ''schema'', ''attributes'']")
      case (Inl e)
      then show ?thesis using resp
        by (intro frameI) (simp add: log_request log_console io_append_assoc del: get_path.simps)
    next
      case (Inr attributes)
      from 2 [OF refl refl resp Inr] obtain r d
        where "\<forall>s. parseFields n cfg srv attributes s = (r, io_append s d)"
        unfolding frame_def by blast
      then show ?thesis using resp Inr
        by (intro frameI) (simp add: log_request io_append_assoc del: get_path.simps)
    qed
  qed
next
  case (3 n cfg srv attributes s)
  show ?case
  proof (cases "Object_keys attributes")
    case (Inl e)
    then show ?thesis
      by (intro frameI [where d = no_io]) (simp add: parseFields.simps)
  next
    case (Inr keys)
    from 3 [OF Inr] obtain ps d
      where "\<forall>s. fieldPromises n cfg srv attributes keys s = (ps, io_append s d)"
      unfolding frame_def by blast
    then show ?thesis using Inr
      by (intro frameI [where d = d]) (simp add: parseFields.simps)
  qed
next
  case (4 n cfg srv attributes s)
  show ?case by (rule frameI [where d = no_io]) simp
next
  case (5 n cfg srv attributes field rest s)
  from 5(1) obtain p d where p: "\<forall>s. fieldPromise n cfg srv attributes field s = (p, io_append s d)"
    unfolding frame_def by blast
  from 5(2) [OF p [rule_format, symmetric]] obtain ps e
    where "\<forall>s. fieldPromises n cfg srv attributes rest s = (ps, io_append s e)"
    unfolding frame_def by blast
  with p show ?case
    by (intro frameI [where d = "io_append d e"]) (simp add: io_append_assoc)
next
  case (6 n cfg srv attributes field s)
  show ?case
  proof (cases "get_path attributes [field, ''type'']")
    case (Inl e)
    then show ?thesis
      by (intro frameI [where d = no_io]) (simp add: fieldPromise.simps del: get_path.simps)
  next
    case (Inr t)
    note ty = this
    show ?thesis
    proof (cases "t = Str ''component''")
      case False
      then show ?thesis using ty
        by (intro frameI [where d = no_io and r = "if t = Str ''media''
              then Resolved (Str (field @ media_block)) else Resolved (Str field)"])
           (simp add: fieldPromise.simps del: get_path.simps)
    next
      case True
      show ?thesis
      proof (cases "get_path attributes [field, ''component'']")
        case (Inl e)
        then show ?thesis using ty True
          by (intro frameI [where d = no_io]) (simp add: fieldPromise.simps del: get_path.simps)
      next
        case (Inr c)
        from 6 [OF ty _ True Inr] True obtain r d
          where "\<forall>s. fetchComponentFields n cfg srv (url cfg) c s = (r, io_append s d)"
          unfolding frame_def by blast
        then show ?thesis using ty True Inr
          by (intro frameI [where d = d and r = "case r of
                  Resolved componentFields \<Rightarrow>
                    (case array_join componentFields ''\<newline>      '' of
                       Inl e \<Rightarrow> Rejected e
                     | Inr body \<Rightarrow> Resolved (Str (field @ '' {\<newline>      '' @ body @ ''\<newline>    }'')))
                | Rejected e \<Rightarrow> Rejected e
                | Pending \<Rightarrow> Pending"])
             (simp add: fieldPromise.simps split: promise.splits sum.splits del: get_path.simps)
      qed
    qed
  qed
qed


lemma result_independent:
  "fst (fetchComponentFields n cfg srv u c s) = fst (fetchComponentFields n cfg srv u c s')"
  "fst (parseFields n cfg srv a s) = fst (parseFields n cfg srv a s')"
  "fst (fieldPromises n cfg srv a ks s) = fst (fieldPromises n cfg srv a ks s')"
  "fst (fieldPromise n cfg srv a k s) = fst (fieldPromise n cfg srv a k s')"
  using frames [of n cfg srv] unfolding frame_def by (metis fst_conv)+

lemma effects_appended:
  "snd (fetchComponentFields n cfg srv u c s) = io_append s (snd (fetchComponentFields n cfg srv u c no_io))"
  "snd (parseFields n cfg srv a s) = io_append s (snd (parseFields n cfg srv a no_io))"
  "snd (fieldPromises n cfg srv a ks s) = io_append s (snd (fieldPromises n cfg srv a ks no_io))"
  "snd (fieldPromise n cfg srv a k s) = io_append s (snd (fieldPromise n cfg srv a k no_io))"
  using frames [of n cfg srv] unfolding frame_def by (metis snd_conv io_append_no_io(2))+

lemma fieldPromises_results:
  "fst (fieldPromises n cfg srv a ks s) = map (\<lambda>k. fst (fieldPromise n cfg srv a k no_io)) ks"
proof (induction ks arbitrary: s)
  case Nil
  show ?case by simp
next
  case (Cons k ks)
  show ?case
    using Cons.IH result_independent(4) [of n cfg srv a k s no_io]
    by (simp split: prod.splits) (metis fst_conv)
qed

lemma parseFields_results:
  "Object_keys a = Inr keys \<Longrightarrow>
   fst (parseFields n cfg srv a s) =
     map_promise Arr (Promise_all (map (\<lambda>k. fst (fieldPromise n cfg srv a k no_io)) keys))"
  using fieldPromises_results [of n cfg srv a keys s]
  by (simp add: parseFields.simps split: prod.splits) (metis fst_conv)

lemma settle_results:
  assumes "distinct order" "\<forall>i\<in>set order. i < length ps"
  shows "fst (settle n cfg srv a keys order ps s) =
     map (\<lambda>i. if i \<in> set order then fst (fieldPromise n cfg srv a (keys ! i) no_io) else ps ! i)
       [0..<length ps]"
  using assms
proof (induction order arbitrary: ps s)
  case Nil
  show ?case by (simp add: map_nth)
next
  case (Cons i order)
  obtain p s1 where step: "fieldPromise n cfg srv a (keys ! i) s = (p, s1)"
    by (cases "fieldPromise n cfg srv a (keys ! i) s")
  have p: "p = fst (fieldPromise n cfg srv a (keys ! i) no_io)"
    using step result_independent(4) [of n cfg srv a "keys ! i" s no_io] by simp
  have "fst (settle n cfg srv a keys order (ps[i := p]) s1) =
     map (\<lambda>j. if j \<in> set order then fst (fieldPromise n cfg srv a (keys ! j) no_io)
               else (ps[i := p]) ! j) [0..<length (ps[i := p])]"
    using Cons.prems by (intro Cons.IH) auto
  then show ?case
    using step p Cons.prems by (auto simp: nth_list_update)
qed

lemma parseFields_in_order_eq:
  assumes keys: "Object_keys a = Inr keys"
    and d: "distinct order" and m: "set order = {0..<length keys}"
  shows "fst (parseFields_in_order order n cfg srv a s) = fst (parseFields n cfg srv a s')"
proof -
  have "fst (settle n cfg srv a keys order (replicate (length keys) Pending) s) =
        map (\<lambda>i. fst (fieldPromise n cfg srv a (keys ! i) no_io)) [0..<length keys]"
    using settle_results [of order "replicate (length keys) Pending" n cfg srv a keys s] d m
    by auto
  also have "\<dots> = map (\<lambda>k. fst (fieldPromise n cfg srv a k no_io)) keys"
    by (rule nth_equalityI) simp_all
  finally show ?thesis
    using keys parseFields_results [OF keys, of n cfg srv s']
    by (simp add: parseFields_in_order_def split: prod.splits) (metis fst_conv)
qed

lemma Promise_all_Resolved: "Promise_all ps = Resolved vs \<longleftrightarrow> ps = map Resolved vs"
proof (induction ps arbitrary: vs)
  case Nil
  show ?case by auto
next
  case (Cons p ps)
  show ?case
  proof (cases p)
    case (Resolved v)
    then show ?thesis
      using Cons.IH by (cases "Promise_all ps") (auto simp: Cons_eq_map_conv)
  next
    case (Rejected e)
    then show ?thesis by (auto simp: Cons_eq_map_conv)
  next
    case Pending
    then show ?thesis by (auto simp: Cons_eq_map_conv split: promise.splits)
  qed
qed

lemma map_promise_Arr_Resolved:
  "map_promise Arr p = Resolved (Arr vs) \<longleftrightarrow> p = Resolved vs"
  by (cases p) auto

lemma parseFields_Resolved:
  assumes keys: "Object_keys a = Inr keys"
  shows "fst (parseFields n cfg srv a s) = Resolved (Arr vs) \<longleftrightarrow>
         map (\<lambda>k. fst (fieldPromise n cfg srv a k no_io)) keys = map Resolved vs"
  by (simp add: parseFields_results [OF keys] map_promise_Arr_Resolved Promise_all_Resolved)

lemma array_join_strings: "array_join (Arr (map Str sels)) sep = Inr (join sep sels)"
  by (simp add: o_def)

lemma fieldPromise_Resolved_Str:
  "fst (fieldPromise n cfg srv a k s) = Resolved v \<Longrightarrow> \<exists>sel. v = Str sel"
  by (auto simp: fieldPromise.simps split: sum.splits if_splits prod.splits promise.splits
      simp del: get_path.simps)

lemma parseFields_Resolved_strings:
  assumes "fst (parseFields n cfg srv a s) = Resolved v"
  shows "\<exists>sels. v = Arr (map Str sels)"
proof (cases "Object_keys a")
  case (Inl e)
  then show ?thesis using assms by (simp add: parseFields.simps)
next
  case (Inr keys)
  from assms obtain vs where v: "v = Arr vs"
    and ps: "map (\<lambda>k. fst (fieldPromise n cfg srv a k no_io)) keys = map Resolved vs"
    using parseFields_results [OF Inr, of n cfg srv s]
    by (cases "Promise_all (map (\<lambda>k. fst (fieldPromise n cfg srv a k no_io)) keys)")
       (auto simp: Promise_all_Resolved)
  have "\<forall>x\<in>set vs. \<exists>sel. x = Str sel"
  proof
    fix x assume "x \<in> set vs"
    then obtain i where i: "i < length vs" "vs ! i = x" by (auto simp: in_set_conv_nth)
    have len: "length keys = length vs" using ps by (metis length_map)
    have "fst (fieldPromise n cfg srv a (keys ! i) no_io) = Resolved x"
      using i len ps by (metis nth_map)
    then show "\<exists>sel. x = Str sel" by (rule fieldPromise_Resolved_Str)
  qed
  then have "\<exists>sels. vs = map Str sels"
    by (induction vs) (auto simp: Cons_eq_map_conv)
  with v show ?thesis by auto
qed

lemma fetchComponentFields_Resolved_shape:
  assumes "fst (fetchComponentFields n cfg srv u c s) = Resolved v"
  shows "v = Null \<or> (\<exists>sels. v = Arr (map Str sels))"
proof (cases n)
  case 0
  then show ?thesis using assms by simp
next
  case (Suc m)
  then show ?thesis
    using assms parseFields_Resolved_strings
    by (auto simp: Let_def split: sum.splits simp del: get_path.simps)
qed

text \<open>
  C1, as stated, fails: for the schema of the example the resolver does not return the
  three one-line strings; the media and component selections are laid out over several
  lines.
\<close>

theorem example_selections_counterexample:
  "fst (parseFields 1 example_config example_server example_attributes no_io) \<noteq>
     Resolved (Arr [Str ''title'', Str ''image { data { attributes { url } } }'',
                    Str ''hero { text }''])"
  by code_simp

text \<open>
  C1, amended. Whatever the order in which the fields are evaluated and whatever was
  logged before, the resolver returns the same result, and when it resolves the result
  has one selection per key, at the position of the key in \<open>Object.keys\<close>, each the
  resolution of that field alone. \<open>Object.keys\<close> is the insertion order when no field
  name is an array index. For the example the result is \<open>title\<close>, the media block of
  \<open>image\<close> and the block of \<open>hero\<close> around \<open>text\<close>, with the line breaks of the source.
\<close>

theorem parseFields_order:
  assumes keys: "Object_keys attributes = Inr keys"
    and order: "distinct order" "set order = {0..<length keys}"
  shows "fst (parseFields_in_order order n cfg srv attributes s) =
           fst (parseFields n cfg srv attributes s')
     \<and> (\<forall>vs. fst (parseFields n cfg srv attributes s') = Resolved (Arr vs) \<longrightarrow>
           length vs = length keys \<and>
           (\<forall>i<length keys. \<forall>s''.
              fst (fieldPromise n cfg srv attributes (keys ! i) s'') = Resolved (vs ! i)))
     \<and> ((\<forall>k\<in>set (map fst props). array_index k = None) \<longrightarrow>
           Object_keys (Obj props) = Inr (map fst props))
     \<and> fst (parseFields 1 example_config example_server example_attributes s') =
           Resolved (Arr [Str ''title'',
             Str ''image {\<newline>      data {\<newline>        attributes {\<newline>          url\<newline>        }\<newline>      }\<newline>    }'',
             Str ''hero {\<newline>      text\<newline>    }''])"
proof (intro conjI allI impI)
  show "fst (parseFields_in_order order n cfg srv attributes s) =
        fst (parseFields n cfg srv attributes s')"
    using keys order by (rule parseFields_in_order_eq)
next
  fix vs
  assume "fst (parseFields n cfg srv attributes s') = Resolved (Arr vs)"
  then have ps: "map (\<lambda>k. fst (fieldPromise n cfg srv attributes k no_io)) keys = map Resolved vs"
    by (simp add: parseFields_Resolved [OF keys])
  then show len: "length vs = length keys" by (metis length_map)
  fix i s''
  assume "i < length keys"
  then have "fst (fieldPromise n cfg srv attributes (keys ! i) no_io) = Resolved (vs ! i)"
    using ps len by (metis nth_map)
  then show "fst (fieldPromise n cfg srv attributes (keys ! i) s'') = Resolved (vs ! i)"
    using result_independent(4) [of n cfg srv attributes "keys ! i" s'' no_io] by simp
next
  assume "\<forall>k\<in>set (map fst props). array_index k = None"
  then have "List.map_filter array_index (map fst props) = []"
    and "filter (\<lambda>k. array_index k = None) (map fst props) = map fst props"
    by (auto simp: map_filter_def filter_empty_conv)
  then show "Object_keys (Obj props) = Inr (map fst props)" by simp
next
  have "fst (parseFields 1 example_config example_server example_attributes no_io) =
           Resolved (Arr [Str ''title'',
             Str ''image {\<newline>      data {\<newline>        attributes {\<newline>          url\<newline>        }\<newline>      }\<newline>    }'',
             Str ''hero {\<newline>      text\<newline>    }''])"
    by code_simp
  then show "fst (parseFields 1 example_config example_server example_attributes s') =
           Resolved (Arr [Str ''title'',
             Str ''image {\<newline>      data {\<newline>        attributes {\<newline>          url\<newline>        }\<newline>      }\<newline>    }'',
             Str ''hero {\<newline>      text\<newline>    }''])"
    using result_independent(2) [of 1 example_config example_server example_attributes s' no_io]
    by simp
qed

lemma example_keys: "Object_keys example_attributes = Inr [''title'', ''image'', ''hero'']"
  by code_simp

theorem parseFields_order_witness:
  "Object_keys example_attributes = Inr [''title'', ''image'', ''hero'']
   \<and> distinct [2, 0, 1::nat] \<and> set [2, 0, 1::nat] = {0..<length [''title'', ''image'', ''hero'']}
   \<and> fst (parseFields_in_order [2, 0, 1] 1 example_config example_server example_attributes no_io) =
       Resolved (Arr [Str ''title'',
             Str ''image {\<newline>      data {\<newline>        attributes {\<newline>          url\<newline>        }\<newline>      }\<newline>    }'',
             Str ''hero {\<newline>      text\<newline>    }''])"
proof -
  have o: "distinct [2, 0, 1::nat]" "set [2, 0, 1::nat] = {0..<length [''title'', ''image'', ''hero'']}"
    by auto
  show ?thesis
    using parseFields_order [OF example_keys o, of 1 example_config example_server no_io no_io "[]"]
      example_keys o
    by simp
qed

text \<open>
  C2. With the schema of the nested component \<open>ns.card\<close> missing, the resolution of the
  example schema rejects with a \<open>TypeError\<close> (\<open>join\<close> is called on \<open>null\<close>): the selections of
  the siblings \<open>title\<close> and \<open>image\<close> are not returned, neither by \<open>parseFields\<close> nor by the
  top-level \<open>fetchComponentFields\<close>.
\<close>

theorem nested_failure_rejects:
  "parseFields 1 example_config failing_server example_attributes no_io =
     (Rejected TypeError,
      \<lparr> requests = {#''http://localhost:1337/api/content-type-builder/components/ns.card''#},
        console = {#ErrorLine ''Error fetching component ns.card:'' AxiosError#} \<rparr>)
   \<and> fst (fetchComponentFields 2 example_config failing_server
          (Str ''http://localhost:1337'') (Str ''ns.page'') no_io) = Rejected TypeError"
  by code_simp

text \<open>
  C6. A response with status 200 whose body has a \<open>schema\<close> without \<open>attributes\<close> is not
  caught: \<open>fetchComponentFields\<close> rejects with the \<open>TypeError\<close> of \<open>Object.keys\<close> and prints
  no diagnostic.
\<close>

theorem missing_attributes_rejects:
  "fetchComponentFields 1 example_config no_attributes_server
      (Str ''http://localhost:1337'') (Str ''ns.card'') no_io =
     (Rejected TypeError,
      \<lparr> requests = {#''http://localhost:1337/api/content-type-builder/components/ns.card''#},
        console = {#} \<rparr>)"
  by code_simp

lemma requests_to_config_url:
  fixes s :: io
  shows "set_mset (requests (snd (fetchComponentFields n cfg srv u c s)))
           \<subseteq> set_mset (requests s) \<union> {request_url u c} \<union> range (request_url (url cfg))"
    and "set_mset (requests (snd (parseFields n cfg srv a s)))
           \<subseteq> set_mset (requests s) \<union> range (request_url (url cfg))"
    and "set_mset (requests (snd (fieldPromises n cfg srv a ks s)))
           \<subseteq> set_mset (requests s) \<union> range (request_url (url cfg))"
    and "set_mset (requests (snd (fieldPromise n cfg srv a k s)))
           \<subseteq> set_mset (requests s) \<union> range (request_url (url cfg))"
proof (induct n cfg srv u c s and n cfg srv a s and n cfg srv a ks s and n cfg srv a k s
    rule: fetchComponentFields_parseFields_fieldPromises_fieldPromise.induct)
  case (1 cfg srv u c s)
  show ?case by auto
next
  case (2 n cfg srv u c s)
  show ?case
  proof (cases "axios_get srv (request_url u c)")
    case (Inl e)
    then show ?thesis by auto
  next
    case (Inr response)
    note resp = this
    show ?thesis
    proof (cases "get_path response [''data'', ''data'', ''schema'', ''attributes'']")
      case (Inl e)
      then show ?thesis using resp by (auto simp del: get_path.simps)
    next
      case (Inr attributes)
      from 2 [OF refl refl resp Inr] show ?thesis
        using resp Inr by (auto simp del: get_path.simps)
    qed
  qed
next
  case (3 n cfg srv attributes s)
  show ?case
  proof (cases "Object_keys attributes")
    case (Inl e)
    then show ?thesis by (auto simp: parseFields.simps)
  next
    case (Inr keys)
    from 3 [OF Inr] show ?thesis
      using Inr by (auto simp: parseFields.simps split: prod.splits)
  qed
next
  case (4 n cfg srv attributes s)
  show ?case by auto
next
  case (5 n cfg srv attributes field rest s)
  obtain p s1 where p: "fieldPromise n cfg srv attributes field s = (p, s1)"
    by (cases "fieldPromise n cfg srv attributes field s")
  from 5(1) p 5(2) [OF p [symmetric]] show ?case
    by (auto split: prod.splits)
next
  case (6 n cfg srv attributes field s)
  show ?case
  proof (cases "get_path attributes [field, ''type'']")
    case (Inl e)
    then show ?thesis by (auto simp: fieldPromise.simps simp del: get_path.simps)
  next
    case (Inr t)
    note ty = this
    show ?thesis
    proof (cases "t = Str ''component''")
      case False
      then show ?thesis using ty by (auto simp: fieldPromise.simps simp del: get_path.simps)
    next
      case True
      show ?thesis
      proof (cases "get_path attributes [field, ''component'']")
        case (Inl e)
        then show ?thesis using ty True by (auto simp: fieldPromise.simps simp del: get_path.simps)
      next
        case (Inr c)
        from 6 [OF ty _ True Inr] True show ?thesis
          using ty Inr
          by (auto simp: fieldPromise.simps simp del: get_path.simps
              split: promise.splits sum.splits prod.splits)
      qed
    qed
  qed
qed

lemma fetch_requests:
  "new_requests (fetchComponentFields (Suc n) cfg srv u c) =
     add_mset (request_url u c)
       (case axios_get srv (request_url u c) of
          Inl e \<Rightarrow> {#}
        | Inr response \<Rightarrow>
            (case get_path response [''data'', ''data'', ''schema'', ''attributes''] of
               Inl e \<Rightarrow> {#}
             | Inr attributes \<Rightarrow> new_requests (parseFields n cfg srv attributes)))"
  using effects_appended(2) [of n cfg srv _ "no_io\<lparr>requests := add_mset (request_url u c) (requests no_io)\<rparr>"]
  by (auto simp: new_requests_def io_append_def no_io_def split: sum.splits simp del: get_path.simps)

lemma fetch_requests_from:
  "requests (snd (fetchComponentFields n cfg srv u c s)) =
     requests s + new_requests (fetchComponentFields n cfg srv u c)"
  using effects_appended(1) [of n cfg srv u c s] by (simp add: new_requests_def io_append_def)

lemma component_field_requests:
  assumes "get_path attributes [field, ''type''] = Inr (Str ''component'')"
    and "get_path attributes [field, ''component''] = Inr c"
  shows "new_requests (fieldPromise n cfg srv attributes field) =
         new_requests (fetchComponentFields n cfg srv (url cfg) c)"
  using assms
  by (auto simp: new_requests_def fieldPromise.simps simp del: get_path.simps
      split: promise.splits sum.splits prod.splits)

lemma fetch_failure_caught:
  assumes "axios_get srv (request_url u c) = Inl e
     \<or> (\<exists>response. axios_get srv (request_url u c) = Inr response
           \<and> get_path response [''data'', ''data'', ''schema'', ''attributes''] = Inl e)"
  shows "fetchComponentFields (Suc n) cfg srv u c s =
     (Resolved Null,
      s\<lparr>requests := add_mset (request_url u c) (requests s),
        console := add_mset (ErrorLine (''Error fetching component '' @ to_string c @ '':'') e)
                     (console s)\<rparr>)"
  using assms by (auto simp del: get_path.simps)

lemma axios_get_rejects:
  "srv target = InvalidUrl \<Longrightarrow> axios_get srv target = Inl TypeError"
  "srv target = NoResponse \<Longrightarrow> axios_get srv target = Inl AxiosError"
  "srv target = Response status body \<Longrightarrow> status < 200 \<or> 300 \<le> status \<Longrightarrow>
     axios_get srv target = Inl AxiosError"
  by (auto simp: axios_get_def)

lemma fieldPromise_media:
  "get_path attributes [field, ''type''] = Inr (Str ''media'') \<Longrightarrow>
   fieldPromise n cfg srv attributes field s = (Resolved (Str (field @ media_block)), s)"
  by (simp add: fieldPromise.simps del: get_path.simps)

lemma fieldPromise_other:
  "get_path attributes [field, ''type''] = Inr t \<Longrightarrow> t \<noteq> Str ''media'' \<Longrightarrow>
   t \<noteq> Str ''component'' \<Longrightarrow>
   fieldPromise n cfg srv attributes field s = (Resolved (Str field), s)"
  by (simp add: fieldPromise.simps del: get_path.simps)

lemma fieldPromise_component:
  assumes "get_path attributes [field, ''type''] = Inr (Str ''component'')"
    and "get_path attributes [field, ''component''] = Inr c"
    and "fst (fetchComponentFields n cfg srv (url cfg) c s) = Resolved (Arr (map Str sels))"
  shows "fst (fieldPromise n cfg srv attributes field s) =
     Resolved (Str (field @ '' {\<newline>      '' @ join ''\<newline>      '' sels @ ''\<newline>    }''))"
proof -
  obtain s1 where "fetchComponentFields n cfg srv (url cfg) c s = (Resolved (Arr (map Str sels)), s1)"
    using assms(3) by (cases "fetchComponentFields n cfg srv (url cfg) c s") simp
  then show ?thesis
    using assms(1,2) array_join_strings [of sels "''\<newline>      ''"]
    by (simp add: fieldPromise.simps del: get_path.simps array_join.simps)
qed

lemma parseFields_all_resolved:
  assumes keys: "Object_keys attributes = Inr keys"
    and all: "\<forall>k\<in>set keys. fst (fieldPromise n cfg srv attributes k s) = Resolved (sel k)"
  shows "fst (parseFields n cfg srv attributes s) = Resolved (Arr (map sel keys))"
proof -
  have "map (\<lambda>k. fst (fieldPromise n cfg srv attributes k no_io)) keys = map Resolved (map sel keys)"
    using all result_independent(4) [of n cfg srv attributes _ s no_io] by simp
  then show ?thesis
    by (simp only: parseFields_Resolved [OF keys])
qed

lemma resolved_field_classified:
  assumes res: "fst (parseFields n cfg srv attributes s) = Resolved (Arr vs)"
    and keys: "Object_keys attributes = Inr keys"
    and i: "i < length keys"
  shows "\<exists>t. get_path attributes [keys ! i, ''type''] = Inr t \<and>
     (if t = Str ''media'' then
        vs ! i = Str (keys ! i @
          '' {\<newline>      data {\<newline>        attributes {\<newline>          url\<newline>        }\<newline>      }\<newline>    }'')
      else if t = Str ''component'' then
        (\<exists>c sels. get_path attributes [keys ! i, ''component''] = Inr c \<and>
           (\<forall>s'. fst (fetchComponentFields n cfg srv (url cfg) c s') = Resolved (Arr (map Str sels))) \<and>
           vs ! i = Str (keys ! i @ '' {\<newline>      '' @ join ''\<newline>      '' sels @ ''\<newline>    }''))
      else vs ! i = Str (keys ! i))"
proof -
  let ?k = "keys ! i"
  have ps: "map (\<lambda>k. fst (fieldPromise n cfg srv attributes k no_io)) keys = map Resolved vs"
    using res by (simp add: parseFields_Resolved [OF keys])
  then have len: "length vs = length keys" by (metis length_map)
  have field: "fst (fieldPromise n cfg srv attributes ?k no_io) = Resolved (vs ! i)"
    using ps len i by (metis nth_map)
  show ?thesis
  proof (cases "get_path attributes [?k, ''type'']")
    case (Inl e)
    then show ?thesis using field by (simp add: fieldPromise.simps del: get_path.simps)
  next
    case (Inr t)
    note ty = this
    show ?thesis
    proof (cases "t = Str ''component''")
      case False
      then show ?thesis using field ty
        by (auto simp: fieldPromise.simps media_block_def simp del: get_path.simps)
    next
      case True
      obtain c where c: "get_path attributes [?k, ''component''] = Inr c"
        using field ty True
        by (cases "get_path attributes [?k, ''component'']")
           (auto simp: fieldPromise.simps simp del: get_path.simps)
      obtain r s1 where call: "fetchComponentFields n cfg srv (url cfg) c no_io = (r, s1)"
        by (cases "fetchComponentFields n cfg srv (url cfg) c no_io")
      from field ty True c call obtain fs body where r: "r = Resolved fs"
        and body: "array_join fs ''\<newline>      '' = Inr body"
        and v: "vs ! i = Str (?k @ '' {\<newline>      '' @ body @ ''\<newline>    }'')"
        by (auto simp: fieldPromise.simps simp del: get_path.simps
            split: promise.splits sum.splits)
      have "fst (fetchComponentFields n cfg srv (url cfg) c no_io) = Resolved fs"
        using call r by simp
      then have "fs = Null \<or> (\<exists>sels. fs = Arr (map Str sels))"
        by (rule fetchComponentFields_Resolved_shape)
      then obtain sels where fs: "fs = Arr (map Str sels)"
        using body by auto
      have "\<forall>s'. fst (fetchComponentFields n cfg srv (url cfg) c s') = Resolved (Arr (map Str sels))"
        using call r fs result_independent(1) [of n cfg srv "url cfg" c _ no_io] by simp
      moreover have "body = join ''\<newline>      '' sels"
        using body fs array_join_strings [of sels "''\<newline>      ''"] by simp
      ultimately show ?thesis using ty True c v by auto
    qed
  qed
qed


text \<open>
  C3. The callback of a field is decided by the \<open>type\<close> of its descriptor, at every nesting
  depth allowed and in every state: for \<open>media\<close> it resolves to the field name followed by
  the fixed block around \<open>data\<close>, \<open>attributes\<close> and \<open>url\<close>; for every type other than \<open>media\<close>
  and \<open>component\<close> it resolves to the field name alone; for \<open>component\<close>, when the fetch of
  the referenced component under \<open>config.url\<close> resolves to a list of selections, it
  resolves to the field name followed by a block around these selections joined by line
  breaks. When the callbacks of all the keys resolve, the resolver resolves to their
  selections in the order of the keys; and when the resolver resolves, the selection at
  the position of each key is the one its type decides.
\<close>

theorem field_classification:
  "(get_path attributes [field, ''type''] = Inr (Str ''media'') \<longrightarrow>
      fieldPromise n cfg srv attributes field s =
        (Resolved (Str (field @
           '' {\<newline>      data {\<newline>        attributes {\<newline>          url\<newline>        }\<newline>      }\<newline>    }'')), s))
   \<and> (get_path attributes [field, ''type''] = Inr t \<and> t \<noteq> Str ''media'' \<and> t \<noteq> Str ''component'' \<longrightarrow>
      fieldPromise n cfg srv attributes field s = (Resolved (Str field), s))
   \<and> (get_path attributes [field, ''type''] = Inr (Str ''component'')
      \<and> get_path attributes [field, ''component''] = Inr c
      \<and> fst (fetchComponentFields n cfg srv (url cfg) c s) = Resolved (Arr (map Str sels)) \<longrightarrow>
      fst (fieldPromise n cfg srv attributes field s) =
        Resolved (Str (field @ '' {\<newline>      '' @ join ''\<newline>      '' sels @ ''\<newline>    }'')))
   \<and> (Object_keys attributes = Inr keys
      \<and> (\<forall>k\<in>set keys. fst (fieldPromise n cfg srv attributes k s) = Resolved (sel k)) \<longrightarrow>
      fst (parseFields n cfg srv attributes s) = Resolved (Arr (map sel keys)))
   \<and> (Object_keys attributes = Inr keys \<and> i < length keys
      \<and> fst (parseFields n cfg srv attributes s) = Resolved (Arr vs) \<longrightarrow>
      (\<exists>t. get_path attributes [keys ! i, ''type''] = Inr t \<and>
        (if t = Str ''media'' then
           vs ! i = Str (keys ! i @
             '' {\<newline>      data {\<newline>        attributes {\<newline>          url\<newline>        }\<newline>      }\<newline>    }'')
         else if t = Str ''component'' then
           (\<exists>c sels. get_path attributes [keys ! i, ''component''] = Inr c \<and>
              (\<forall>s'. fst (fetchComponentFields n cfg srv (url cfg) c s') = Resolved (Arr (map Str sels))) \<and>
              vs ! i = Str (keys ! i @ '' {\<newline>      '' @ join ''\<newline>      '' sels @ ''\<newline>    }''))
         else vs ! i = Str (keys ! i))))"
proof (intro conjI impI)
  assume "get_path attributes [field, ''type''] = Inr (Str ''media'')"
  then show "fieldPromise n cfg srv attributes field s =
        (Resolved (Str (field @
           '' {\<newline>      data {\<newline>        attributes {\<newline>          url\<newline>        }\<newline>      }\<newline>    }'')), s)"
    using fieldPromise_media [of attributes field n cfg srv s] by (simp add: media_block_def)
next
  assume "get_path attributes [field, ''type''] = Inr t \<and> t \<noteq> Str ''media'' \<and> t \<noteq> Str ''component''"
  then show "fieldPromise n cfg srv attributes field s = (Resolved (Str field), s)"
    using fieldPromise_other [of attributes field t n cfg srv s] by blast
next
  assume "get_path attributes [field, ''type''] = Inr (Str ''component'')
      \<and> get_path attributes [field, ''component''] = Inr c
      \<and> fst (fetchComponentFields n cfg srv (url cfg) c s) = Resolved (Arr (map Str sels))"
  then show "fst (fieldPromise n cfg srv attributes field s) =
        Resolved (Str (field @ '' {\<newline>      '' @ join ''\<newline>      '' sels @ ''\<newline>    }''))"
    using fieldPromise_component [of attributes field c n cfg srv s sels] by blast
next
  assume "Object_keys attributes = Inr keys
      \<and> (\<forall>k\<in>set keys. fst (fieldPromise n cfg srv attributes k s) = Resolved (sel k))"
  then show "fst (parseFields n cfg srv attributes s) = Resolved (Arr (map sel keys))"
    using parseFields_all_resolved [of attributes keys n cfg srv s sel] by blast
next
  assume a: "Object_keys attributes = Inr keys \<and> i < length keys
      \<and> fst (parseFields n cfg srv attributes s) = Resolved (Arr vs)"
  then have "fst (parseFields n cfg srv attributes s) = Resolved (Arr vs)"
    "Object_keys attributes = Inr keys" "i < length keys" by simp_all
  then show "\<exists>t. get_path attributes [keys ! i, ''type''] = Inr t \<and>
        (if t = Str ''media'' then
           vs ! i = Str (keys ! i @
             '' {\<newline>      data {\<newline>        attributes {\<newline>          url\<newline>        }\<newline>      }\<newline>    }'')
         else if t = Str ''component'' then
           (\<exists>c sels. get_path attributes [keys ! i, ''component''] = Inr c \<and>
              (\<forall>s'. fst (fetchComponentFields n cfg srv (url cfg) c s') = Resolved (Arr (map Str sels))) \<and>
              vs ! i = Str (keys ! i @ '' {\<newline>      '' @ join ''\<newline>      '' sels @ ''\<newline>    }''))
         else vs ! i = Str (keys ! i))"
    by (rule resolved_field_classified)
qed

lemma example_resolves:
  "fst (parseFields 1 example_config example_server example_attributes no_io) =
     Resolved (Arr [Str ''title'',
       Str ''image {\<newline>      data {\<newline>        attributes {\<newline>          url\<newline>        }\<newline>      }\<newline>    }'',
       Str ''hero {\<newline>      text\<newline>    }''])"
  by code_simp


theorem field_classification_witness:
  "get_path example_attributes [''image'', ''type''] = Inr (Str ''media'')
   \<and> fieldPromise 0 example_config example_server example_attributes ''image'' no_io =
       (Resolved (Str ''image {\<newline>      data {\<newline>        attributes {\<newline>          url\<newline>        }\<newline>      }\<newline>    }''), no_io)
   \<and> get_path example_attributes [''title'', ''type''] = Inr (Str ''string'')
   \<and> fieldPromise 0 example_config example_server example_attributes ''title'' no_io =
       (Resolved (Str ''title''), no_io)
   \<and> get_path example_attributes [''hero'', ''type''] = Inr (Str ''component'')
   \<and> get_path example_attributes [''hero'', ''component''] = Inr (Str ''ns.card'')
   \<and> fst (fetchComponentFields 1 example_config example_server (url example_config)
        (Str ''ns.card'') no_io) = Resolved (Arr (map Str [''text'']))
   \<and> fst (fieldPromise 1 example_config example_server example_attributes ''hero'' no_io) =
       Resolved (Str ''hero {\<newline>      text\<newline>    }'')
   \<and> Object_keys example_attributes = Inr [''title'', ''image'', ''hero'']
   \<and> fst (parseFields 1 example_config example_server example_attributes no_io) =
       Resolved (Arr [Str ''title'',
         Str ''image {\<newline>      data {\<newline>        attributes {\<newline>          url\<newline>        }\<newline>      }\<newline>    }'',
         Str ''hero {\<newline>      text\<newline>    }''])"
proof -
  have im: "get_path example_attributes [''image'', ''type''] = Inr (Str ''media'')"
    and ti: "get_path example_attributes [''title'', ''type''] = Inr (Str ''string'')"
    and he: "get_path example_attributes [''hero'', ''type''] = Inr (Str ''component'')"
    and co: "get_path example_attributes [''hero'', ''component''] = Inr (Str ''ns.card'')"
    by code_simp+
  have card: "fst (fetchComponentFields 1 example_config example_server (url example_config)
        (Str ''ns.card'') no_io) = Resolved (Arr (map Str [''text'']))"
    by code_simp
  have ne: "Str ''string'' \<noteq> Str ''media''" "Str ''string'' \<noteq> Str ''component''" by simp_all
  note media = field_classification [of example_attributes "''image''" 0 example_config
      example_server no_io, THEN conjunct1, rule_format, OF im]
  note other = field_classification [of example_attributes "''title''" 0 example_config
      example_server no_io "Str ''string''", THEN conjunct2, THEN conjunct1, rule_format,
      OF conjI [OF ti conjI [OF ne]]]
  note comp = field_classification [of example_attributes "''hero''" 1 example_config
      example_server no_io _ "Str ''ns.card''" "[''text'']", THEN conjunct2, THEN conjunct2,
      THEN conjunct1, rule_format, OF conjI [OF he conjI [OF co card]]]
  show ?thesis
    using media other comp im ti he co card example_keys example_resolves
    by (simp del: get_path.simps fetchComponentFields.simps)
qed

text \<open>
  C9, as stated, fails: with the same \<open>config.url\<close>, a call under the configured URL gets
  the schema of \<open>ns.page\<close> and issues the nested request for \<open>ns.card\<close>, while a call under
  another URL is answered with status 404 and issues no nested request.
\<close>

theorem nested_requests_differ_counterexample:
  "new_requests (fetchComponentFields 2 example_config example_server
       (Str ''http://localhost:1337'') (Str ''ns.page''))
     - {#request_url (Str ''http://localhost:1337'') (Str ''ns.page'')#}
     = {#''http://localhost:1337/api/content-type-builder/components/ns.card''#}
   \<and> new_requests (fetchComponentFields 2 example_config example_server
       (Str ''http://127.0.0.1:1337'') (Str ''ns.page''))
     - {#request_url (Str ''http://127.0.0.1:1337'') (Str ''ns.page'')#}
     = {#}"
  by code_simp

text \<open>
  C9, amended. A call of \<open>fetchComponentFields\<close> issues the request for its component under
  the \<open>url\<close> argument and, besides it, requests for nested components; each of these is
  issued under \<open>config.url\<close>, and they are the same for two \<open>url\<close> arguments whose first
  requests get the same answer. The requests of a component-typed field are those of
  fetching its component under \<open>config.url\<close>.
\<close>

theorem nested_requests_use_config_url:
  "(\<forall>s. requests (snd (fetchComponentFields (Suc n) cfg srv u c s)) =
        add_mset (request_url u c)
          (requests s + (new_requests (fetchComponentFields (Suc n) cfg srv u c)
                           - {#request_url u c#})))
   \<and> (\<forall>r\<in>#new_requests (fetchComponentFields (Suc n) cfg srv u c) - {#request_url u c#}.
         \<exists>c'. r = request_url (url cfg) c')
   \<and> (srv (request_url u c) = srv (request_url u' c) \<longrightarrow>
         new_requests (fetchComponentFields (Suc n) cfg srv u c) - {#request_url u c#} =
         new_requests (fetchComponentFields (Suc n) cfg srv u' c) - {#request_url u' c#})
   \<and> (get_path attributes [field, ''type''] = Inr (Str ''component'')
        \<and> get_path attributes [field, ''component''] = Inr c' \<longrightarrow>
         new_requests (fieldPromise (Suc n) cfg srv attributes field) =
         add_mset (request_url (url cfg) c')
           (new_requests (fetchComponentFields (Suc n) cfg srv (url cfg) c')
              - {#request_url (url cfg) c'#}))"
proof (intro conjI allI impI ballI)
  fix s
  show "requests (snd (fetchComponentFields (Suc n) cfg srv u c s)) =
        add_mset (request_url u c)
          (requests s + (new_requests (fetchComponentFields (Suc n) cfg srv u c)
                           - {#request_url u c#}))"
    by (simp add: fetch_requests_from [of "Suc n"] fetch_requests del: fetchComponentFields.simps)
next
  fix r
  assume r: "r \<in># new_requests (fetchComponentFields (Suc n) cfg srv u c) - {#request_url u c#}"
  have "\<And>a. set_mset (new_requests (parseFields n cfg srv a)) \<subseteq> range (request_url (url cfg))"
    using requests_to_config_url(2) [of n cfg srv _ no_io]
    by (simp add: new_requests_def no_io_def)
  with r have "r \<in> range (request_url (url cfg))"
    by (auto simp: fetch_requests split: sum.splits simp del: fetchComponentFields.simps get_path.simps)
  then show "\<exists>c'. r = request_url (url cfg) c'" by auto
next
  assume "srv (request_url u c) = srv (request_url u' c)"
  then have "axios_get srv (request_url u c) = axios_get srv (request_url u' c)"
    by (simp add: axios_get_def)
  then show "new_requests (fetchComponentFields (Suc n) cfg srv u c) - {#request_url u c#} =
             new_requests (fetchComponentFields (Suc n) cfg srv u' c) - {#request_url u' c#}"
    by (simp add: fetch_requests del: fetchComponentFields.simps)
next
  assume "get_path attributes [field, ''type''] = Inr (Str ''component'')
        \<and> get_path attributes [field, ''component''] = Inr c'"
  then show "new_requests (fieldPromise (Suc n) cfg srv attributes field) =
         add_mset (request_url (url cfg) c')
           (new_requests (fetchComponentFields (Suc n) cfg srv (url cfg) c')
              - {#request_url (url cfg) c'#})"
    by (simp add: component_field_requests fetch_requests
        del: fetchComponentFields.simps get_path.simps)
qed

theorem nested_requests_use_config_url_witness:
  "mirror_server (request_url (Str ''http://localhost:1337'') (Str ''ns.page'')) =
     mirror_server (request_url (Str ''http://127.0.0.1:1337'') (Str ''ns.page''))
   \<and> new_requests (fetchComponentFields 2 example_config mirror_server
         (Str ''http://127.0.0.1:1337'') (Str ''ns.page''))
       - {#request_url (Str ''http://127.0.0.1:1337'') (Str ''ns.page'')#} =
       {#''http://localhost:1337/api/content-type-builder/components/ns.card''#}
   \<and> new_requests (fetchComponentFields 2 example_config mirror_server
         (Str ''http://localhost:1337'') (Str ''ns.page''))
       - {#request_url (Str ''http://localhost:1337'') (Str ''ns.page'')#} =
       {#''http://localhost:1337/api/content-type-builder/components/ns.card''#}
   \<and> get_path example_attributes [''hero'', ''type''] = Inr (Str ''component'')
   \<and> get_path example_attributes [''hero'', ''component''] = Inr (Str ''ns.card'')
   \<and> new_requests (fieldPromise 2 example_config mirror_server example_attributes ''hero'') =
       {#''http://localhost:1337/api/content-type-builder/components/ns.card''#}"
proof -
  have same: "mirror_server (request_url (Str ''http://localhost:1337'') (Str ''ns.page'')) =
     mirror_server (request_url (Str ''http://127.0.0.1:1337'') (Str ''ns.page''))"
    by code_simp
  have other: "new_requests (fetchComponentFields 2 example_config mirror_server
         (Str ''http://127.0.0.1:1337'') (Str ''ns.page''))
       - {#request_url (Str ''http://127.0.0.1:1337'') (Str ''ns.page'')#} =
       {#''http://localhost:1337/api/content-type-builder/components/ns.card''#}"
    by code_simp
  have ty: "get_path example_attributes [''hero'', ''type''] = Inr (Str ''component'')"
    and co: "get_path example_attributes [''hero'', ''component''] = Inr (Str ''ns.card'')"
    by code_simp+
  have card: "new_requests (fetchComponentFields 2 example_config mirror_server
      (url example_config) (Str ''ns.card'')) - {#request_url (url example_config) (Str ''ns.card'')#}
      = {#}"
    by code_simp
  have u: "request_url (url example_config) (Str ''ns.card'') =
      ''http://localhost:1337/api/content-type-builder/components/ns.card''"
    by code_simp
  have two: "2 = Suc (Suc 0)" by simp
  show ?thesis
    using nested_requests_use_config_url [of 1 example_config mirror_server
        "Str ''http://localhost:1337''" "Str ''ns.page''" "Str ''http://127.0.0.1:1337''"
        example_attributes "''hero''" "Str ''ns.card''"]
      same other ty co card u
    by (simp add: two del: fetchComponentFields.simps get_path.simps)
qed

section \<open>Properties of paths and of the file system\<close>

lemma split_append_sep:
  "sep d \<Longrightarrow> split sep (xs @ d # ys) = split sep xs @ split sep ys"
proof (induction xs)
  case Nil
  then show ?case by simp
next
  case (Cons c cs)
  then show ?case
    using split_not_Nil [of sep cs] by (cases "split sep cs") auto
qed

lemma split_join_concat:
  "parts \<noteq> [] \<Longrightarrow> sep d \<Longrightarrow> split sep (join [d] parts) = concat (map (split sep) parts)"
proof (induction "[d]" parts rule: join.induct)
  case 1
  then show ?case by simp
next
  case (2 x)
  then show ?case by simp
next
  case (3 x y ys)
  then show ?case by (simp add: split_append_sep)
qed

lemma split_segment_chars: "seg \<in> set (split sep xs) \<Longrightarrow> set seg \<subseteq> set xs \<and> (\<forall>c\<in>set seg. \<not> sep c)"
proof (induction xs arbitrary: seg)
  case Nil
  then show ?case by simp
next
  case (Cons c cs)
  show ?case
  proof (cases "sep c")
    case True
    then show ?thesis using Cons by auto
  next
    case False
    obtain w ws where s: "split sep cs = w # ws"
      using split_not_Nil [of sep cs] by (cases "split sep cs") auto
    then have "seg = c # w \<or> seg \<in> set ws" using Cons.prems False by auto
    then show ?thesis
      using Cons.IH [of w] Cons.IH [of seg] s False by auto
  qed
qed

lemma split_append_no_sep:
  "\<forall>c\<in>set ys. \<not> sep c \<Longrightarrow>
   split sep (xs @ ys) = butlast (split sep xs) @ [last (split sep xs) @ ys]"
proof (induction xs)
  case Nil
  then show ?case by (simp add: split_no_sep)
next
  case (Cons c cs)
  obtain w ws where s: "split sep cs = w # ws"
    using split_not_Nil [of sep cs] by (cases "split sep cs") auto
  show ?case
    using Cons s by (cases ws) auto
qed

lemma foldl_step_plain:
  "\<forall>seg\<in>set segs. plain seg \<Longrightarrow> foldl (normalize_step a) st segs = st @ segs"
  by (induction segs arbitrary: st) (auto simp: normalize_step_def plain_def)

lemma foldl_step_empty [simp]:
  "foldl (normalize_step a) st ([] # segs) = foldl (normalize_step a) st segs"
  by (simp add: normalize_step_def)

lemma foldl_step_result_plain:
  "\<forall>seg\<in>set st. plain seg \<Longrightarrow> \<forall>seg\<in>set (foldl (normalize_step False) st segs). plain seg"
proof (induction segs arbitrary: st)
  case Nil
  then show ?case by simp
next
  case (Cons x xs)
  have "\<forall>seg\<in>set (normalize_step False st x). plain seg"
    using Cons.prems by (auto simp: normalize_step_def plain_def dest: in_set_butlastD)
  then show ?case using Cons.IH by simp
qed

lemma normalize_step_subset:
  "set (normalize_step a st x) \<subseteq> insert ''..'' (insert x (set st))"
  unfolding normalize_step_def by (auto dest: in_set_butlastD)

lemma foldl_step_subset:
  "set (foldl (normalize_step a) st segs) \<subseteq> insert ''..'' (set st \<union> set segs)"
proof (induction segs arbitrary: st)
  case Nil
  show ?case by auto
next
  case (Cons x xs)
  have "set (foldl (normalize_step a) (normalize_step a st x) xs)
          \<subseteq> insert ''..'' (set (normalize_step a st x) \<union> set xs)"
    by (rule Cons.IH)
  also have "\<dots> \<subseteq> insert ''..'' (set st \<union> set (x # xs))"
    using normalize_step_subset [of a st x] by auto
  finally show ?case by simp
qed

lemma foldl_step_prefix:
  "\<forall>seg\<in>set segs. seg \<noteq> ''..'' \<Longrightarrow> prefix st (foldl (normalize_step a) st segs)"
proof (induction segs arbitrary: st)
  case Nil
  then show ?case by simp
next
  case (Cons x xs)
  have "prefix st (normalize_step a st x)"
    using Cons.prems by (auto simp: normalize_step_def)
  moreover have "prefix (normalize_step a st x) (foldl (normalize_step a) (normalize_step a st x) xs)"
    using Cons by simp
  ultimately show ?case by (auto intro: prefix_order.trans)
qed

lemma resolve_plain: "\<forall>seg\<in>set (resolve p). plain seg \<and> (\<forall>c\<in>set seg. c \<noteq> CHR ''/'')"
proof
  fix seg assume seg: "seg \<in> set (resolve p)"
  have "plain seg"
    using seg foldl_step_result_plain [of "[]" "split slash p"]
    by (simp add: resolve_def normalizeString_def)
  moreover have "seg = ''..'' \<or> seg \<in> set (split slash p)"
    using seg foldl_step_subset [of False "[]" "split slash p"]
    by (auto simp: resolve_def normalizeString_def)
  then have "\<forall>c\<in>set seg. c \<noteq> CHR ''/''"
    using split_segment_chars [of seg slash p] by auto
  ultimately show "plain seg \<and> (\<forall>c\<in>set seg. c \<noteq> CHR ''/'')" by simp
qed

lemma normalize_step_empty [simp]: "normalize_step a st [] = st"
  by (simp add: normalize_step_def)

lemma foldl_step_filter:
  "foldl (normalize_step a) st (concat (map (split slash) (filter (\<lambda>arg. arg \<noteq> []) args))) =
   foldl (normalize_step a) st (concat (map (split slash) args))"
  by (induction args arbitrary: st) auto

text \<open>The segments of a normalised absolute path are those of the path.\<close>

lemma normalize_absolute:
  assumes "p \<noteq> []" "hd p = CHR ''/''"
  shows "normalize p =
     (if normalizeString p False = [] then ''/''
      else ''/'' @ join ''/'' (normalizeString p False) @ (if last p = CHR ''/'' then ''/'' else []))"
  using assms by (simp add: normalize_def Let_def)

lemma resolve_root: "resolve ''/'' = []"
  by (simp add: resolve_def normalizeString_def)

lemma resolve_rendered:
  assumes pl: "\<forall>seg\<in>set segs. plain seg \<and> (\<forall>c\<in>set seg. c \<noteq> CHR ''/'')" and ne: "segs \<noteq> []"
  shows "resolve (''/'' @ join ''/'' segs) = segs"
    and "resolve (''/'' @ join ''/'' segs @ ''/'') = segs"
proof -
  have sp: "split slash (join ''/'' segs) = segs"
    using ne pl by (intro split_join) auto
  have a: "split slash (CHR ''/'' # join ''/'' segs) = [] # segs"
    using sp by simp
  have "split slash (join ''/'' segs @ CHR ''/'' # []) = split slash (join ''/'' segs) @ split slash []"
    by (rule split_append_sep) simp
  then have b: "split slash (CHR ''/'' # join ''/'' segs @ ''/'') = [] # segs @ [[]]"
    using sp by simp
  have c: "foldl (normalize_step False) [] segs = segs"
    using pl foldl_step_plain [of segs False "[]"] by simp
  show "resolve (''/'' @ join ''/'' segs) = segs"
    unfolding resolve_def normalizeString_def using a c by simp
  show "resolve (''/'' @ join ''/'' segs @ ''/'') = segs"
    unfolding resolve_def normalizeString_def using b c by simp
qed

lemma resolve_normalize:
  assumes "p \<noteq> []" "hd p = CHR ''/''"
  shows "resolve (normalize p) = resolve p"
proof (cases "normalizeString p False = []")
  case True
  then show ?thesis
    using assms by (simp add: normalize_absolute resolve_root) (simp add: resolve_def)
next
  case False
  have pl: "\<forall>seg\<in>set (normalizeString p False). plain seg \<and> (\<forall>c\<in>set seg. c \<noteq> CHR ''/'')"
    using resolve_plain [of p] by (simp add: resolve_def)
  show ?thesis
    using assms False resolve_rendered [OF pl False]
    by (simp add: normalize_absolute) (simp add: resolve_def)
qed

lemma normalize_is_absolute:
  assumes "p \<noteq> []" "hd p = CHR ''/''"
  shows "normalize p \<noteq> [] \<and> hd (normalize p) = CHR ''/''"
  using assms by (simp add: normalize_absolute)

lemma join_Cons: "join sep (x # xs) = x @ concat (map (\<lambda>y. sep @ y) xs)"
  by (induction sep "x # xs" arbitrary: x xs rule: join.induct) auto

lemma resolve_append_segments:
  "resolve p = foldl (normalize_step False) [] (split slash p)"
  by (simp add: resolve_def normalizeString_def)

lemma resolve_path_join:
  assumes "cwd \<noteq> []" "hd cwd = CHR ''/''"
  shows "resolve (path_join_strings (cwd # rest)) =
           foldl (normalize_step False) (resolve cwd) (concat (map (split slash) rest))"
    and "path_join_strings (cwd # rest) \<noteq> []"
    and "hd (path_join_strings (cwd # rest)) = CHR ''/''"
proof -
  let ?parts = "cwd # filter (\<lambda>arg. arg \<noteq> []) rest"
  let ?j = "join ''/'' ?parts"
  have pj: "path_join_strings (cwd # rest) = normalize ?j"
    using assms by (simp add: path_join_strings_def)
  have j: "?j \<noteq> []" "hd ?j = CHR ''/''"
    using assms by (simp_all add: join_Cons)
  show "path_join_strings (cwd # rest) \<noteq> []" "hd (path_join_strings (cwd # rest)) = CHR ''/''"
    using normalize_is_absolute [OF j] pj by simp_all
  have "resolve (normalize ?j) = resolve ?j"
    using j by (rule resolve_normalize)
  also have "\<dots> = foldl (normalize_step False) [] (concat (map (split slash) ?parts))"
    by (simp add: resolve_append_segments split_join_concat [of ?parts slash "CHR ''/''"]
        del: list.map concat.simps filter.simps)
  also have "\<dots> = foldl (normalize_step False) (resolve cwd)
        (concat (map (split slash) (filter (\<lambda>arg. arg \<noteq> []) rest)))"
    by (simp add: resolve_append_segments)
  also have "\<dots> = foldl (normalize_step False) (resolve cwd) (concat (map (split slash) rest))"
    by (rule foldl_step_filter)
  finally show "resolve (path_join_strings (cwd # rest)) =
           foldl (normalize_step False) (resolve cwd) (concat (map (split slash) rest))"
    using pj by simp
qed

lemma toUpperCase_dot: "toUpperCase c = CHR ''.'' \<Longrightarrow> c = CHR ''.''"
  by (auto simp: toUpperCase_def split: if_splits dest!: arg_cong [where f = "of_char :: char \<Rightarrow> nat"])

lemma toLowerCase_dot: "toLowerCase c = CHR ''.'' \<Longrightarrow> c = CHR ''.''"
  by (auto simp: toLowerCase_def split: if_splits dest!: arg_cong [where f = "of_char :: char \<Rightarrow> nat"])

lemma capitalize_no_dot: "CHR ''.'' \<notin> set seg \<Longrightarrow> CHR ''.'' \<notin> set (capitalize seg)"
  by (cases seg) (auto dest: toUpperCase_dot toUpperCase_dot [OF sym])

lemma lowerFirst_no_dot: "CHR ''.'' \<notin> set nm \<Longrightarrow> CHR ''.'' \<notin> set (lowerFirst nm)"
  by (cases nm) (auto dest: toLowerCase_dot toLowerCase_dot [OF sym])

lemma processString_name_no_dot:
  assumes "processString c = Inr n"
  shows "CHR ''.'' \<notin> set (name n)"
proof -
  obtain str where c: "c = Str str" using assms by (cases c) auto
  obtain first second more where sp: "split (\<lambda>c. c = CHR ''.'') str = first # second # more"
    using assms c by (auto split: list.splits)
  have n: "name n = concat (map capitalize (split (\<lambda>c. c = CHR ''-'') second))"
    using assms c sp by (auto simp: join_empty_sep)
  have "CHR ''.'' \<notin> set second"
    using split_segment_chars [of second "\<lambda>c. c = CHR ''.''" str] sp by auto
  then have "\<forall>seg\<in>set (split (\<lambda>c. c = CHR ''-'') second). CHR ''.'' \<notin> set seg"
    using split_segment_chars [of _ "\<lambda>c. c = CHR ''-''" second] by blast
  then show ?thesis
    using n capitalize_no_dot by auto
qed

text \<open>A file name made of a dot-free stem and an extension has no segment \<open>..\<close>.\<close>

lemma file_name_segments:
  assumes stem: "CHR ''.'' \<notin> set stem" and ext: "\<forall>c\<in>set ext. c \<noteq> CHR ''/''" "2 < length ext"
  shows "\<forall>seg\<in>set (split slash (stem @ ext)). seg \<noteq> ''..''"
proof
  fix seg assume "seg \<in> set (split slash (stem @ ext))"
  then have "seg \<in> set (butlast (split slash stem)) \<or> seg = last (split slash stem) @ ext"
    using split_append_no_sep [of ext slash stem] ext by auto
  then show "seg \<noteq> ''..''"
  proof
    assume "seg \<in> set (butlast (split slash stem))"
    then have "set seg \<subseteq> set stem"
      using split_segment_chars [of seg slash stem] by (auto dest: in_set_butlastD)
    then show ?thesis using stem by auto
  next
    assume "seg = last (split slash stem) @ ext"
    then have "2 < length seg" using ext by simp
    then show ?thesis by auto
  qed
qed

lemma file_path_prefix:
  assumes d: "d \<noteq> []" "hd d = CHR ''/''"
    and stem: "CHR ''.'' \<notin> set stem" and ext: "\<forall>c\<in>set ext. c \<noteq> CHR ''/''" "2 < length ext"
  shows "prefix (resolve d) (resolve (path_join_strings [d, stem @ ext]))"
  using resolve_path_join(1) [OF d, of "[stem @ ext]"]
    foldl_step_prefix [OF file_name_segments [OF stem ext], of "resolve d" False]
  by simp

lemma split_literals:
  "split slash ''components'' = [''components'']" "split slash ''sections'' = [''sections'']"
  "split slash ''graphql'' = [''graphql'']" "split slash ''fragments'' = [''fragments'']"
  "split slash ''index.ts'' = [''index.ts'']"
  by simp_all

lemma config_dirs_resolved:
  assumes cwd: "cwd \<noteq> []" "hd cwd = CHR ''/''" and dr: "dir cfg = Str dr"
  shows "\<exists>d. config_dirs cwd cfg = Inr d
     \<and> resolve (sectionsDir d) =
         foldl (normalize_step False) (resolve cwd) (split slash dr) @ [''components'', ''sections'']
     \<and> resolve (sectionsFragmentsDir d) =
         foldl (normalize_step False) (resolve cwd) (split slash dr) @ [''graphql'', ''fragments'', ''sections'']
     \<and> resolve (sectionsFragmentsIndexDir d) =
         foldl (normalize_step False) (resolve cwd) (split slash dr) @ [''graphql'', ''fragments'', ''index.ts'']
     \<and> sectionsDir d \<noteq> [] \<and> hd (sectionsDir d) = CHR ''/''
     \<and> sectionsFragmentsDir d \<noteq> [] \<and> hd (sectionsFragmentsDir d) = CHR ''/''"
proof -
  let ?root = "foldl (normalize_step False) (resolve cwd) (split slash dr)"
  have seg: "\<And>segs. \<forall>s\<in>set segs. plain s \<Longrightarrow>
      foldl (normalize_step False) (resolve cwd) (split slash dr @ segs) = ?root @ segs"
    by (simp add: foldl_step_plain)
  have r1: "resolve (path_join_strings [cwd, dr, ''components'', ''sections'']) =
      ?root @ [''components'', ''sections'']"
    using resolve_path_join(1) [OF cwd, of "[dr, ''components'', ''sections'']"]
      seg [of "[''components'', ''sections'']"]
    by (simp add: split_literals plain_def del: foldl_append)
  have r2: "resolve (path_join_strings [cwd, dr, ''graphql'', ''fragments'', ''sections'']) =
      ?root @ [''graphql'', ''fragments'', ''sections'']"
    using resolve_path_join(1) [OF cwd, of "[dr, ''graphql'', ''fragments'', ''sections'']"]
      seg [of "[''graphql'', ''fragments'', ''sections'']"]
    by (simp add: split_literals plain_def del: foldl_append)
  have r3: "resolve (path_join_strings [cwd, dr, ''graphql'', ''fragments'', ''index.ts'']) =
      ?root @ [''graphql'', ''fragments'', ''index.ts'']"
    using resolve_path_join(1) [OF cwd, of "[dr, ''graphql'', ''fragments'', ''index.ts'']"]
      seg [of "[''graphql'', ''fragments'', ''index.ts'']"]
    by (simp add: split_literals plain_def del: foldl_append)
  show ?thesis
    using dr r1 r2 r3 resolve_path_join(2,3) [OF cwd]
    by (simp add: config_dirs_def path_join_def)
qed

lemma mkdirs_effect:
  assumes "mkdirs fs ps = Inr fs'"
  shows "(fs p \<noteq> None \<longrightarrow> fs' p = fs p) \<and> (p \<in> set ps \<longrightarrow> fs' p = Some Dir)
       \<and> (p \<notin> set ps \<longrightarrow> fs' p = fs p)"
  using assms
proof (induction ps arbitrary: fs)
  case Nil
  then show ?case by simp
next
  case (Cons q qs)
  show ?case
  proof (cases "fs q")
    case None
    then have "mkdirs (fs(q \<mapsto> Dir)) qs = Inr fs'" using Cons.prems by simp
    from Cons.IH [OF this] show ?thesis using None by (auto split: if_splits)
  next
    case (Some nd)
    then have nd: "nd = Dir" and "mkdirs fs qs = Inr fs'"
      using Cons.prems by (cases nd; simp)+
    from Cons.IH [OF this(2)] show ?thesis using Some nd by auto
  qed
qed

lemma mkdirs_succeeds:
  assumes "\<forall>p\<in>set ps. \<forall>content. fs p \<noteq> Some (File content)"
  shows "\<exists>fs'. mkdirs fs ps = Inr fs'"
  using assms
proof (induction ps arbitrary: fs)
  case Nil
  then show ?case by simp
next
  case (Cons q qs)
  show ?case
  proof (cases "fs q")
    case None
    have "\<forall>p\<in>set qs. \<forall>content. (fs(q \<mapsto> Dir)) p \<noteq> Some (File content)"
      using Cons.prems by auto
    then obtain fs' where "mkdirs (fs(q \<mapsto> Dir)) qs = Inr fs'"
      using Cons.IH [of "fs(q \<mapsto> Dir)"] by blast
    then show ?thesis using None by simp
  next
    case (Some nd)
    then have nd: "nd = Dir" using Cons.prems by (cases nd) auto
    have "\<forall>p\<in>set qs. \<forall>content. fs p \<noteq> Some (File content)" using Cons.prems by auto
    from Cons.IH [OF this] show ?thesis using Some nd by simp
  qed
qed

lemma ensure_dir_effect:
  assumes "ensure_dir fs path = Inr fs'"
  shows "existsSync fs' path"
    and "fs q \<noteq> None \<Longrightarrow> fs' q = fs q"
    and "\<not> prefix q (resolve path) \<Longrightarrow> fs' q = fs q"
    and "fs (resolve path) = None \<Longrightarrow> prefix q (resolve path) \<Longrightarrow> fs' q = Some Dir"
    and "existsSync fs path \<Longrightarrow> fs' = fs"
proof -
  show "existsSync fs path \<Longrightarrow> fs' = fs"
    using assms by (simp add: ensure_dir_def)
  show "existsSync fs' path"
    using assms mkdirs_effect [of fs "prefixes (resolve path)" fs' "resolve path"]
    by (auto simp: ensure_dir_def existsSync_def mkdirSync_def split: if_splits)
  show "fs q \<noteq> None \<Longrightarrow> fs' q = fs q"
    using assms mkdirs_effect [of fs "prefixes (resolve path)" fs' q]
    by (auto simp: ensure_dir_def mkdirSync_def split: if_splits)
  show "\<not> prefix q (resolve path) \<Longrightarrow> fs' q = fs q"
    using assms mkdirs_effect [of fs "prefixes (resolve path)" fs' q]
    by (auto simp: ensure_dir_def mkdirSync_def split: if_splits)
  show "fs (resolve path) = None \<Longrightarrow> prefix q (resolve path) \<Longrightarrow> fs' q = Some Dir"
    using assms mkdirs_effect [of fs "prefixes (resolve path)" fs' q]
    by (auto simp: ensure_dir_def mkdirSync_def existsSync_def split: if_splits)
qed

lemma ensure_dir_succeeds:
  assumes "\<forall>p content. prefix p (resolve path) \<longrightarrow> fs p \<noteq> Some (File content)"
  shows "\<exists>fs'. ensure_dir fs path = Inr fs'"
  using assms mkdirs_succeeds [of "prefixes (resolve path)" fs]
  by (auto simp: ensure_dir_def mkdirSync_def)

lemma graphql_components: "''graphql'' \<noteq> ''components''"
  by simp

lemma dirs_apart:
  "\<not> prefix (root @ [''graphql'', ''fragments'', ''sections'']) (root @ [''components'', ''sections''])"
  using graphql_components unfolding same_prefix_prefix Cons_prefix_Cons by blast

lemma fragments_prefix:
  "prefix (root @ [''graphql'', ''fragments'']) (root @ [''graphql'', ''fragments'', ''sections''])"
  by (simp only: same_prefix_prefix Cons_prefix_Cons Nil_prefix simp_thms)

lemma ensure_dir_same_or_dir:
  assumes "ensure_dir fs path = Inr fs'"
  shows "fs' q = fs q \<or> fs' q = Some Dir"
  using assms mkdirs_effect [of fs "prefixes (resolve path)" fs' q]
  by (auto simp: ensure_dir_def mkdirSync_def split: if_splits)

lemma setup_dirs_creates:
  assumes nofile: "\<forall>p content. prefix p (resolve (sectionsDir d)) \<or> prefix p (resolve (sectionsFragmentsDir d))
      \<longrightarrow> fs p \<noteq> Some (File content)"
    and apart: "\<not> prefix (resolve (sectionsFragmentsDir d)) (resolve (sectionsDir d))"
  shows "\<exists>fs'. setup_dirs d fs = (None, fs')
     \<and> existsSync fs' (sectionsDir d) \<and> existsSync fs' (sectionsFragmentsDir d)
     \<and> (fs (resolve (sectionsDir d)) = None \<longrightarrow>
          (\<forall>p. prefix p (resolve (sectionsDir d)) \<longrightarrow> fs' p = Some Dir))
     \<and> (fs (resolve (sectionsFragmentsDir d)) = None \<longrightarrow>
          (\<forall>p. prefix p (resolve (sectionsFragmentsDir d)) \<longrightarrow> fs' p = Some Dir))"
proof -
  obtain fs1 where one: "ensure_dir fs (sectionsDir d) = Inr fs1"
    using ensure_dir_succeeds [of "sectionsDir d" fs] nofile by blast
  have "fs1 p \<noteq> Some (File content)" if "prefix p (resolve (sectionsFragmentsDir d))" for p content
  proof -
    have "fs p \<noteq> Some (File content)" using nofile that by blast
    moreover have "fs1 p = fs p \<or> fs1 p = Some Dir" by (rule ensure_dir_same_or_dir [OF one])
    ultimately show ?thesis by auto
  qed
  then obtain fs2 where two: "ensure_dir fs1 (sectionsFragmentsDir d) = Inr fs2"
    using ensure_dir_succeeds [of "sectionsFragmentsDir d" fs1] by blast
  have run: "setup_dirs d fs = (None, fs2)"
    using one two by (simp add: setup_dirs_def)
  have "fs1 (resolve (sectionsDir d)) \<noteq> None"
    using ensure_dir_effect(1) [OF one] by (simp add: existsSync_def)
  then have e1: "existsSync fs2 (sectionsDir d)"
    using ensure_dir_effect(2) [OF two, of "resolve (sectionsDir d)"]
    by (simp add: existsSync_def)
  have e2: "existsSync fs2 (sectionsFragmentsDir d)"
    by (rule ensure_dir_effect(1) [OF two])
  have c1: "fs2 p = Some Dir"
    if "fs (resolve (sectionsDir d)) = None" "prefix p (resolve (sectionsDir d))" for p
  proof -
    have "fs1 p = Some Dir" using that by (rule ensure_dir_effect(4) [OF one])
    then show ?thesis using ensure_dir_effect(2) [OF two, of p] by simp
  qed
  have c2: "fs2 p = Some Dir"
    if "fs (resolve (sectionsFragmentsDir d)) = None" "prefix p (resolve (sectionsFragmentsDir d))" for p
  proof -
    have "fs1 (resolve (sectionsFragmentsDir d)) = None"
      using that(1) ensure_dir_effect(3) [OF one apart] by simp
    then show ?thesis using that(2) by (rule ensure_dir_effect(4) [OF two])
  qed
  show ?thesis
  proof (intro exI [of _ fs2] conjI impI allI)
    show "setup_dirs d fs = (None, fs2)" by (rule run)
    show "existsSync fs2 (sectionsDir d)" by (rule e1)
    show "existsSync fs2 (sectionsFragmentsDir d)" by (rule e2)
  next
    fix p assume "fs (resolve (sectionsDir d)) = None" "prefix p (resolve (sectionsDir d))"
    then show "fs2 p = Some Dir" by (rule c1)
  next
    fix p assume "fs (resolve (sectionsFragmentsDir d)) = None"
      "prefix p (resolve (sectionsFragmentsDir d))"
    then show "fs2 p = Some Dir" by (rule c2)
  qed
qed

text \<open>
  C8. With an absolute working directory and \<open>--dir\<close> given, the three configured paths
  are \<open>components/sections\<close>, \<open>graphql/fragments/sections\<close> and
  \<open>graphql/fragments/index.ts\<close> under the directory that \<open>path.join\<close> makes of the working
  directory and \<open>--dir\<close> (for a plain name such as \<open>foo\<close>: the working directory followed by
  \<open>foo\<close>); the component stub and the types file lie under the first, the fragment file
  under \<open>graphql/fragments\<close>; and when no file is in the way the set-up succeeds and a
  directory that did not exist is created together with all the directories above it.
\<close>

theorem output_paths_rooted:
  assumes cwd: "cwd \<noteq> []" "hd cwd = CHR ''/''"
    and dr: "dir cfg = Str dr"
    and nm: "processString c = Inr n"
    and root: "root = foldl (normalize_step False) (resolve cwd) (split slash dr)"
  shows "\<exists>d. config_dirs cwd cfg = Inr d
     \<and> ((\<forall>seg\<in>set (split slash dr). plain seg) \<longrightarrow> root = resolve cwd @ split slash dr)
     \<and> resolve (sectionsDir d) = root @ [''components'', ''sections'']
     \<and> resolve (sectionsFragmentsDir d) = root @ [''graphql'', ''fragments'', ''sections'']
     \<and> resolve (sectionsFragmentsIndexDir d) = root @ [''graphql'', ''fragments'', ''index.ts'']
     \<and> prefix (root @ [''components'', ''sections'']) (resolve (componentFilePath d (name n)))
     \<and> prefix (root @ [''components'', ''sections'']) (resolve (componentTypesFilePath d (name n)))
     \<and> prefix (root @ [''graphql'', ''fragments'']) (resolve (fragmentFilePath d (name n)))
     \<and> (\<forall>fs. (\<forall>p content. prefix p (resolve (sectionsDir d)) \<or> prefix p (resolve (sectionsFragmentsDir d))
                  \<longrightarrow> fs p \<noteq> Some (File content)) \<longrightarrow>
           (\<exists>fs'. setup_dirs d fs = (None, fs')
              \<and> (fs (resolve (sectionsDir d)) = None \<longrightarrow>
                   (\<forall>p. prefix p (resolve (sectionsDir d)) \<longrightarrow> fs' p = Some Dir))
              \<and> (fs (resolve (sectionsFragmentsDir d)) = None \<longrightarrow>
                   (\<forall>p. prefix p (resolve (sectionsFragmentsDir d)) \<longrightarrow> fs' p = Some Dir))))"
proof -
  obtain d where d: "config_dirs cwd cfg = Inr d"
    and d1: "resolve (sectionsDir d) = root @ [''components'', ''sections'']"
    and d2: "resolve (sectionsFragmentsDir d) = root @ [''graphql'', ''fragments'', ''sections'']"
    and d3: "resolve (sectionsFragmentsIndexDir d) = root @ [''graphql'', ''fragments'', ''index.ts'']"
    and a1: "sectionsDir d \<noteq> []" "hd (sectionsDir d) = CHR ''/''"
    and a2: "sectionsFragmentsDir d \<noteq> []" "hd (sectionsFragmentsDir d) = CHR ''/''"
    using config_dirs_resolved [OF cwd dr, folded root] by (elim exE conjE)
  have nodot: "CHR ''.'' \<notin> set (name n)" "CHR ''.'' \<notin> set (lowerFirst (name n))"
    using processString_name_no_dot [OF nm] lowerFirst_no_dot by auto
  have f1: "prefix (root @ [''components'', ''sections'']) (resolve (componentFilePath d (name n)))"
    using file_path_prefix [OF a1 nodot(1), of "''.vue''"] d1
    by (simp add: componentFilePath_def)
  have f2: "prefix (root @ [''components'', ''sections'']) (resolve (componentTypesFilePath d (name n)))"
    using file_path_prefix [OF a1 nodot(2), of "''.types.ts''"] d1
    by (simp add: componentTypesFilePath_def)
  have "prefix (root @ [''graphql'', ''fragments'', ''sections'']) (resolve (fragmentFilePath d (name n)))"
    using file_path_prefix [OF a2 nodot(2), of "''.ts''"] d2
    by (simp add: fragmentFilePath_def)
  moreover have "prefix (root @ [''graphql'', ''fragments''])
      (root @ [''graphql'', ''fragments'', ''sections''])"
    by (rule fragments_prefix)
  ultimately have f3: "prefix (root @ [''graphql'', ''fragments'']) (resolve (fragmentFilePath d (name n)))"
    by (rule prefix_order.trans [rotated])
  have pl: "root = resolve cwd @ split slash dr" if "\<forall>seg\<in>set (split slash dr). plain seg"
    using root that by (simp add: foldl_step_plain)
  have apart: "\<not> prefix (resolve (sectionsFragmentsDir d)) (resolve (sectionsDir d))"
    by (simp only: d1 d2 dirs_apart not_False_eq_True)
  have dirs_ok: "\<exists>fs'. setup_dirs d fs = (None, fs')
              \<and> (fs (resolve (sectionsDir d)) = None \<longrightarrow>
                   (\<forall>p. prefix p (resolve (sectionsDir d)) \<longrightarrow> fs' p = Some Dir))
              \<and> (fs (resolve (sectionsFragmentsDir d)) = None \<longrightarrow>
                   (\<forall>p. prefix p (resolve (sectionsFragmentsDir d)) \<longrightarrow> fs' p = Some Dir))"
    if "\<forall>p content. prefix p (resolve (sectionsDir d)) \<or> prefix p (resolve (sectionsFragmentsDir d))
                  \<longrightarrow> fs p \<noteq> Some (File content)" for fs
  proof -
    from setup_dirs_creates [OF that apart] obtain fs' where
      "setup_dirs d fs = (None, fs')"
      "existsSync fs' (sectionsDir d)" "existsSync fs' (sectionsFragmentsDir d)"
      "fs (resolve (sectionsDir d)) = None \<longrightarrow>
          (\<forall>p. prefix p (resolve (sectionsDir d)) \<longrightarrow> fs' p = Some Dir)"
      "fs (resolve (sectionsFragmentsDir d)) = None \<longrightarrow>
          (\<forall>p. prefix p (resolve (sectionsFragmentsDir d)) \<longrightarrow> fs' p = Some Dir)"
      by (elim exE conjE)
    then show ?thesis by (intro exI [of _ fs'] conjI) assumption+
  qed
  show ?thesis
  proof (intro exI [of _ d] conjI allI impI)
    assume "\<forall>seg\<in>set (split slash dr). plain seg"
    then show "root = resolve cwd @ split slash dr" by (rule pl)
  next
    fix fs
    assume "\<forall>p content. prefix p (resolve (sectionsDir d)) \<or> prefix p (resolve (sectionsFragmentsDir d))
                  \<longrightarrow> fs p \<noteq> Some (File content)"
    then show "\<exists>fs'. setup_dirs d fs = (None, fs')
              \<and> (fs (resolve (sectionsDir d)) = None \<longrightarrow>
                   (\<forall>p. prefix p (resolve (sectionsDir d)) \<longrightarrow> fs' p = Some Dir))
              \<and> (fs (resolve (sectionsFragmentsDir d)) = None \<longrightarrow>
                   (\<forall>p. prefix p (resolve (sectionsFragmentsDir d)) \<longrightarrow> fs' p = Some Dir))"
      by (rule dirs_ok)
  qed (fact d pl d1 d2 d3 f1 f2 f3)+
qed

theorem output_paths_rooted_witness:
  "''/work'' \<noteq> [] \<and> hd ''/work'' = CHR ''/''
   \<and> dir (parse_args example_args initial_config) = Str ''foo''
   \<and> processString (Str ''ns.page'') = Inr \<lparr> name = ''Page'', collection = ''ComponentNsPage'' \<rparr>
   \<and> (\<exists>d. config_dirs ''/work'' (parse_args example_args initial_config) = Inr d
        \<and> resolve (sectionsDir d) = [''work'', ''foo'', ''components'', ''sections'']
        \<and> resolve (sectionsFragmentsDir d) = [''work'', ''foo'', ''graphql'', ''fragments'', ''sections'']
        \<and> resolve (sectionsFragmentsIndexDir d) = [''work'', ''foo'', ''graphql'', ''fragments'', ''index.ts'']
        \<and> prefix [''work'', ''foo'', ''components'', ''sections''] (resolve (componentFilePath d ''Page''))
        \<and> prefix [''work'', ''foo'', ''components'', ''sections''] (resolve (componentTypesFilePath d ''Page''))
        \<and> prefix [''work'', ''foo'', ''graphql'', ''fragments''] (resolve (fragmentFilePath d ''Page''))
        \<and> (\<exists>fs'. setup_dirs d example_fs = (None, fs')
              \<and> (\<forall>p. prefix p (resolve (sectionsDir d)) \<longrightarrow> fs' p = Some Dir)
              \<and> (\<forall>p. prefix p (resolve (sectionsFragmentsDir d)) \<longrightarrow> fs' p = Some Dir)))"
proof -
  let ?n = "\<lparr> name = ''Page'', collection = ''ComponentNsPage'' \<rparr>"
  let ?root = "[''work'', ''foo'']"
  have h1: "''/work'' \<noteq> []" "hd ''/work'' = CHR ''/''" by simp_all
  have h2: "dir (parse_args example_args initial_config) = Str ''foo''" by code_simp
  have h3: "processString (Str ''ns.page'') = Inr ?n" by code_simp
  have h4: "?root = foldl (normalize_step False) (resolve ''/work'') (split slash ''foo'')"
    by code_simp
  from output_paths_rooted [OF h1 h2 h3 h4] obtain d where
    d: "config_dirs ''/work'' (parse_args example_args initial_config) = Inr d"
    and "(\<forall>seg\<in>set (split slash ''foo''). plain seg) \<longrightarrow> ?root = resolve ''/work'' @ split slash ''foo''"
    and d1: "resolve (sectionsDir d) = ?root @ [''components'', ''sections'']"
    and d2: "resolve (sectionsFragmentsDir d) = ?root @ [''graphql'', ''fragments'', ''sections'']"
    and d3: "resolve (sectionsFragmentsIndexDir d) = ?root @ [''graphql'', ''fragments'', ''index.ts'']"
    and f1: "prefix (?root @ [''components'', ''sections'']) (resolve (componentFilePath d (name ?n)))"
    and f2: "prefix (?root @ [''components'', ''sections'']) (resolve (componentTypesFilePath d (name ?n)))"
    and f3: "prefix (?root @ [''graphql'', ''fragments'']) (resolve (fragmentFilePath d (name ?n)))"
    and mk: "\<forall>fs. (\<forall>p content. prefix p (resolve (sectionsDir d)) \<or> prefix p (resolve (sectionsFragmentsDir d))
                  \<longrightarrow> fs p \<noteq> Some (File content)) \<longrightarrow>
           (\<exists>fs'. setup_dirs d fs = (None, fs')
              \<and> (fs (resolve (sectionsDir d)) = None \<longrightarrow>
                   (\<forall>p. prefix p (resolve (sectionsDir d)) \<longrightarrow> fs' p = Some Dir))
              \<and> (fs (resolve (sectionsFragmentsDir d)) = None \<longrightarrow>
                   (\<forall>p. prefix p (resolve (sectionsFragmentsDir d)) \<longrightarrow> fs' p = Some Dir)))"
    by (elim exE conjE)
  have nofile: "\<forall>p content. prefix p (resolve (sectionsDir d)) \<or> prefix p (resolve (sectionsFragmentsDir d))
                  \<longrightarrow> example_fs p \<noteq> Some (File content)"
    by (simp add: example_fs_def)
  have absent: "example_fs (resolve (sectionsDir d)) = None"
      "example_fs (resolve (sectionsFragmentsDir d)) = None"
    by (simp_all add: d1 d2 example_fs_def)
  from mk [THEN spec, THEN mp, OF nofile] obtain fs' where
    s0: "setup_dirs d example_fs = (None, fs')"
    and s1: "example_fs (resolve (sectionsDir d)) = None \<longrightarrow>
                   (\<forall>p. prefix p (resolve (sectionsDir d)) \<longrightarrow> fs' p = Some Dir)"
    and s2: "example_fs (resolve (sectionsFragmentsDir d)) = None \<longrightarrow>
                   (\<forall>p. prefix p (resolve (sectionsFragmentsDir d)) \<longrightarrow> fs' p = Some Dir)"
    by (elim exE conjE)
  have made: "\<exists>fs'. setup_dirs d example_fs = (None, fs')
              \<and> (\<forall>p. prefix p (resolve (sectionsDir d)) \<longrightarrow> fs' p = Some Dir)
              \<and> (\<forall>p. prefix p (resolve (sectionsFragmentsDir d)) \<longrightarrow> fs' p = Some Dir)"
    using s0 s1 [rule_format, OF absent(1)] s2 [rule_format, OF absent(2)]
    by (intro exI [of _ fs'] conjI allI impI)
  show ?thesis
  proof (intro conjI exI [of _ d])
    show "\<exists>fs'. setup_dirs d example_fs = (None, fs')
              \<and> (\<forall>p. prefix p (resolve (sectionsDir d)) \<longrightarrow> fs' p = Some Dir)
              \<and> (\<forall>p. prefix p (resolve (sectionsFragmentsDir d)) \<longrightarrow> fs' p = Some Dir)"
      by (rule made)
  qed (use h1 h2 h3 d d1 d2 d3 f1 f2 f3 in simp_all)
qed

section \<open>Properties of the main function\<close>

lemma starts_with_self: "starts_with (t @ r) t"
  by (induction t) auto

lemma starts_with_length: "starts_with s t \<Longrightarrow> length t \<le> length s"
  by (induction s t rule: starts_with.induct) auto

lemma string_includes_append: "string_includes (xs @ t) t"
proof (induction xs)
  case Nil
  show ?case using starts_with_self [of t "[]"] by (cases t) auto
next
  case (Cons x xs)
  then show ?case by simp
qed

lemma string_includes_self: "string_includes t t"
  using string_includes_append [of "[]" t] by simp

lemma occurrences_short: "length s < length t \<Longrightarrow> occurrences s t = 0"
  by (induction s) (auto dest: starts_with_length)

lemma occurrences_self: "s \<noteq> [] \<Longrightarrow> occurrences s s = 1"
  using starts_with_self [of s "[]"] by (cases s) (auto simp: occurrences_short)

lemma appendFileSync_effect:
  assumes "appendFileSync fs path content = Inr fs'"
  shows "\<exists>old. fs' = fs(resolve path \<mapsto> File (old @ content))
     \<and> (fs (resolve path) = None \<longrightarrow> old = [])"
  using assms
  by (auto simp: appendFileSync_def Let_def split: if_splits option.splits node.splits)

lemma create_file_effect:
  assumes "create_file fs path content = Inr fs'"
  shows "existsSync fs' path"
    and "fs q \<noteq> None \<Longrightarrow> fs' q \<noteq> None"
    and "q \<noteq> resolve path \<Longrightarrow> fs' q = fs q"
    and "existsSync fs path \<Longrightarrow> fs' = fs"
proof -
  show "existsSync fs path \<Longrightarrow> fs' = fs"
    using assms by (simp add: create_file_def)
  show "existsSync fs' path"
    using assms appendFileSync_effect [of fs path content fs']
    by (auto simp: create_file_def existsSync_def split: if_splits)
  show "fs q \<noteq> None \<Longrightarrow> fs' q \<noteq> None"
    using assms appendFileSync_effect [of fs path content fs']
    by (auto simp: create_file_def existsSync_def split: if_splits)
  show "q \<noteq> resolve path \<Longrightarrow> fs' q = fs q"
    using assms appendFileSync_effect [of fs path content fs']
    by (auto simp: create_file_def existsSync_def split: if_splits)
qed

lemma update_index_effect:
  assumes "update_index fs path line = Inr fs'"
  shows "\<exists>content. readFileSync fs' path = Inr content \<and> string_includes content line"
    and "fs q \<noteq> None \<Longrightarrow> fs' q \<noteq> None"
    and "fs (resolve path) = None \<Longrightarrow> readFileSync fs' path = Inr line"
proof -
  show "\<exists>content. readFileSync fs' path = Inr content \<and> string_includes content line"
  proof (cases "existsSync fs path")
    case True
    then obtain content where c: "readFileSync fs path = Inr content"
      using assms by (cases "readFileSync fs path") (auto simp: update_index_def)
    show ?thesis
    proof (cases "string_includes content line")
      case True
      then show ?thesis using assms c \<open>existsSync fs path\<close> by (auto simp: update_index_def)
    next
      case False
      then have "appendFileSync fs path line = Inr fs'"
        using assms c \<open>existsSync fs path\<close> by (simp add: update_index_def)
      then show ?thesis
        using appendFileSync_effect [of fs path line fs']
        by (auto simp: readFileSync_def string_includes_append string_includes_self)
    qed
  next
    case False
    then have "appendFileSync fs path line = Inr fs'"
      using assms by (simp add: update_index_def)
    then show ?thesis
      using appendFileSync_effect [of fs path line fs']
      by (auto simp: readFileSync_def string_includes_append string_includes_self)
  qed
  show "fs q \<noteq> None \<Longrightarrow> fs' q \<noteq> None"
    using assms appendFileSync_effect [of fs path line fs']
    by (auto simp: update_index_def split: if_splits sum.splits)
  show "fs (resolve path) = None \<Longrightarrow> readFileSync fs' path = Inr line"
    using assms appendFileSync_effect [of fs path line fs']
    by (auto simp: update_index_def existsSync_def readFileSync_def split: if_splits)
qed

lemma update_index_again:
  assumes "readFileSync fs path = Inr content" "string_includes content line"
  shows "update_index fs path line = Inr fs"
  using assms
  by (auto simp: update_index_def existsSync_def readFileSync_def split: option.splits node.splits)

lemma write_files_steps:
  assumes "write_files d a fs = (None, fs')"
  shows "\<exists>f1 f2 f3.
      create_file fs (fragmentFilePath d (name a)) (fragmentCode a) = Inr f1
    \<and> create_file f1 (componentFilePath d (name a)) (formattedComponentCode a) = Inr f2
    \<and> create_file f2 (componentTypesFilePath d (name a)) (formattedComponentTypesCode a) = Inr f3
    \<and> update_index f3 (sectionsFragmentsIndexDir d) (barrelLine a) = Inr fs'"
  using assms by (auto simp: write_files_def split: sum.splits)

lemma write_files_effect:
  assumes w: "write_files d a fs = (None, fs')"
  shows "fs q \<noteq> None \<Longrightarrow> fs' q \<noteq> None"
    and "existsSync fs' (fragmentFilePath d (name a))"
    and "existsSync fs' (componentFilePath d (name a))"
    and "existsSync fs' (componentTypesFilePath d (name a))"
    and "\<exists>content. readFileSync fs' (sectionsFragmentsIndexDir d) = Inr content
           \<and> string_includes content (barrelLine a)"
    and "fs (resolve (sectionsFragmentsIndexDir d)) = None \<Longrightarrow>
         resolve (fragmentFilePath d (name a)) \<noteq> resolve (sectionsFragmentsIndexDir d) \<Longrightarrow>
         resolve (componentFilePath d (name a)) \<noteq> resolve (sectionsFragmentsIndexDir d) \<Longrightarrow>
         resolve (componentTypesFilePath d (name a)) \<noteq> resolve (sectionsFragmentsIndexDir d) \<Longrightarrow>
         readFileSync fs' (sectionsFragmentsIndexDir d) = Inr (barrelLine a)"
proof -
  from write_files_steps [OF w] obtain f1 f2 f3 where
    c1: "create_file fs (fragmentFilePath d (name a)) (fragmentCode a) = Inr f1"
    and c2: "create_file f1 (componentFilePath d (name a)) (formattedComponentCode a) = Inr f2"
    and c3: "create_file f2 (componentTypesFilePath d (name a)) (formattedComponentTypesCode a) = Inr f3"
    and ix: "update_index f3 (sectionsFragmentsIndexDir d) (barrelLine a) = Inr fs'"
    by (elim exE conjE)
  have keep: "fs' q \<noteq> None" if "fs q \<noteq> None" for q
  proof -
    have "f1 q \<noteq> None" using that by (rule create_file_effect(2) [OF c1])
    then have "f2 q \<noteq> None" by (rule create_file_effect(2) [OF c2])
    then have "f3 q \<noteq> None" by (rule create_file_effect(2) [OF c3])
    then show ?thesis by (rule update_index_effect(2) [OF ix])
  qed
  show "fs q \<noteq> None \<Longrightarrow> fs' q \<noteq> None" by (rule keep)
  have "f1 (resolve (fragmentFilePath d (name a))) \<noteq> None"
    using create_file_effect(1) [OF c1] by (simp add: existsSync_def)
  then have "f2 (resolve (fragmentFilePath d (name a))) \<noteq> None"
    by (rule create_file_effect(2) [OF c2])
  then have "f3 (resolve (fragmentFilePath d (name a))) \<noteq> None"
    by (rule create_file_effect(2) [OF c3])
  then have "fs' (resolve (fragmentFilePath d (name a))) \<noteq> None"
    by (rule update_index_effect(2) [OF ix])
  then show "existsSync fs' (fragmentFilePath d (name a))" by (simp add: existsSync_def)
  have "f2 (resolve (componentFilePath d (name a))) \<noteq> None"
    using create_file_effect(1) [OF c2] by (simp add: existsSync_def)
  then have "f3 (resolve (componentFilePath d (name a))) \<noteq> None"
    by (rule create_file_effect(2) [OF c3])
  then have "fs' (resolve (componentFilePath d (name a))) \<noteq> None"
    by (rule update_index_effect(2) [OF ix])
  then show "existsSync fs' (componentFilePath d (name a))" by (simp add: existsSync_def)
  have "f3 (resolve (componentTypesFilePath d (name a))) \<noteq> None"
    using create_file_effect(1) [OF c3] by (simp add: existsSync_def)
  then have "fs' (resolve (componentTypesFilePath d (name a))) \<noteq> None"
    by (rule update_index_effect(2) [OF ix])
  then show "existsSync fs' (componentTypesFilePath d (name a))" by (simp add: existsSync_def)
  show "\<exists>content. readFileSync fs' (sectionsFragmentsIndexDir d) = Inr content
           \<and> string_includes content (barrelLine a)"
    by (rule update_index_effect(1) [OF ix])
  show "readFileSync fs' (sectionsFragmentsIndexDir d) = Inr (barrelLine a)"
    if "fs (resolve (sectionsFragmentsIndexDir d)) = None"
      "resolve (fragmentFilePath d (name a)) \<noteq> resolve (sectionsFragmentsIndexDir d)"
      "resolve (componentFilePath d (name a)) \<noteq> resolve (sectionsFragmentsIndexDir d)"
      "resolve (componentTypesFilePath d (name a)) \<noteq> resolve (sectionsFragmentsIndexDir d)"
  proof -
    have "f1 (resolve (sectionsFragmentsIndexDir d)) = None"
      using create_file_effect(3) [OF c1, of "resolve (sectionsFragmentsIndexDir d)"] that by simp
    then have "f2 (resolve (sectionsFragmentsIndexDir d)) = None"
      using create_file_effect(3) [OF c2, of "resolve (sectionsFragmentsIndexDir d)"] that by simp
    then have "f3 (resolve (sectionsFragmentsIndexDir d)) = None"
      using create_file_effect(3) [OF c3, of "resolve (sectionsFragmentsIndexDir d)"] that by simp
    then show ?thesis by (rule update_index_effect(3) [OF ix])
  qed
qed

lemma write_files_again:
  assumes "existsSync fs (fragmentFilePath d (name a))"
    and "existsSync fs (componentFilePath d (name a))"
    and "existsSync fs (componentTypesFilePath d (name a))"
    and "readFileSync fs (sectionsFragmentsIndexDir d) = Inr content"
    and "string_includes content (barrelLine a)"
  shows "write_files d a fs = (None, fs)"
  using assms update_index_again [of fs "sectionsFragmentsIndexDir d" content "barrelLine a"]
  by (simp add: write_files_def create_file_def)

lemma setup_dirs_steps:
  assumes "setup_dirs d fs = (None, fs')"
  shows "\<exists>f1. ensure_dir fs (sectionsDir d) = Inr f1 \<and> ensure_dir f1 (sectionsFragmentsDir d) = Inr fs'"
  using assms by (auto simp: setup_dirs_def split: sum.splits)

lemma setup_dirs_effect:
  assumes s: "setup_dirs d fs = (None, fs')"
  shows "existsSync fs' (sectionsDir d)" and "existsSync fs' (sectionsFragmentsDir d)"
    and "\<not> prefix q (resolve (sectionsDir d)) \<Longrightarrow> \<not> prefix q (resolve (sectionsFragmentsDir d)) \<Longrightarrow>
         fs' q = fs q"
proof -
  from setup_dirs_steps [OF s] obtain f1 where
    one: "ensure_dir fs (sectionsDir d) = Inr f1"
    and two: "ensure_dir f1 (sectionsFragmentsDir d) = Inr fs'"
    by (elim exE conjE)
  have "f1 (resolve (sectionsDir d)) \<noteq> None"
    using ensure_dir_effect(1) [OF one] by (simp add: existsSync_def)
  then show "existsSync fs' (sectionsDir d)"
    using ensure_dir_effect(2) [OF two, of "resolve (sectionsDir d)"] by (simp add: existsSync_def)
  show "existsSync fs' (sectionsFragmentsDir d)" by (rule ensure_dir_effect(1) [OF two])
  show "fs' q = fs q"
    if "\<not> prefix q (resolve (sectionsDir d))" "\<not> prefix q (resolve (sectionsFragmentsDir d))"
    using ensure_dir_effect(3) [OF one that(1)] ensure_dir_effect(3) [OF two that(2)] by simp
qed

lemma setup_dirs_again:
  assumes "existsSync fs (sectionsDir d)" "existsSync fs (sectionsFragmentsDir d)"
  shows "setup_dirs d fs = (None, fs)"
  using assms by (simp add: setup_dirs_def ensure_dir_def)

lemma render_names:
  assumes "render formatCode c attributes = Inr a"
  shows "\<exists>n. processString c = Inr n \<and> name a = name n \<and> collection a = collection n
           \<and> barrelLine a = indexCode (name n)"
  using assms by (auto simp: render_def split: sum.splits)

lemma main_body_steps:
  assumes "main_body formatCode srv depth cwd args (fs0, s0) = (Resolved (), fs1, s1)"
  shows "\<exists>d fsA attributes a.
      config_dirs cwd (parse_args args initial_config) = Inr d
    \<and> setup_dirs d fs0 = (None, fsA)
    \<and> fetchComponentFields depth (parse_args args initial_config) srv
          (url (parse_args args initial_config)) (component (parse_args args initial_config)) s0
        = (Resolved attributes, s1)
    \<and> render formatCode (component (parse_args args initial_config)) attributes = Inr a
    \<and> write_files d a fsA = (None, fs1)"
  using assms
  by (auto simp: main_body_def Let_def
      split: sum.splits prod.splits option.splits promise.splits)

lemma create_file_present: "existsSync fs path \<Longrightarrow> create_file fs path content = Inr fs"
  by (simp add: create_file_def)

lemma write_files_keeps:
  assumes "write_files d a fs = (r, fs')" and "fs q \<noteq> None"
  shows "fs' q \<noteq> None"
proof -
  have step: "\<And>f f' path content. create_file f path content = Inr f' \<Longrightarrow> f q \<noteq> None \<Longrightarrow> f' q \<noteq> None"
    by (rule create_file_effect(2))
  have ix: "\<And>f f' path line. update_index f path line = Inr f' \<Longrightarrow> f q \<noteq> None \<Longrightarrow> f' q \<noteq> None"
    by (rule update_index_effect(2))
  show ?thesis
    using assms
    by (auto simp: write_files_def split: sum.splits dest!: step ix)
qed

lemma write_files_idem:
  assumes w: "write_files d a fs = (r, fs')"
  shows "write_files d a fs' = (r, fs')"
proof (cases "create_file fs (fragmentFilePath d (name a)) (fragmentCode a)")
  case (Inl e)
  then show ?thesis using w by (simp add: write_files_def)
next
  case (Inr f1)
  note c1 = this
  have p1: "existsSync f1 (fragmentFilePath d (name a))" by (rule create_file_effect(1) [OF c1])
  show ?thesis
  proof (cases "create_file f1 (componentFilePath d (name a)) (formattedComponentCode a)")
    case (Inl e)
    then have "r = Some e" "fs' = f1" using w c1 by (simp_all add: write_files_def)
    then show ?thesis using Inl create_file_present [OF p1] by (simp add: write_files_def)
  next
    case (Inr f2)
    note c2 = this
    have p2: "existsSync f2 (componentFilePath d (name a))" by (rule create_file_effect(1) [OF c2])
    have p1': "existsSync f2 (fragmentFilePath d (name a))"
      using p1 create_file_effect(2) [OF c2] by (simp add: existsSync_def)
    show ?thesis
    proof (cases "create_file f2 (componentTypesFilePath d (name a)) (formattedComponentTypesCode a)")
      case (Inl e)
      then have "r = Some e" "fs' = f2" using w c1 c2 by (simp_all add: write_files_def)
      then show ?thesis
        using Inl create_file_present [OF p1'] create_file_present [OF p2]
        by (simp add: write_files_def)
    next
      case (Inr f3)
      note c3 = this
      have p3: "existsSync f3 (componentTypesFilePath d (name a))"
        by (rule create_file_effect(1) [OF c3])
      have p1'': "existsSync f3 (fragmentFilePath d (name a))"
        using p1' create_file_effect(2) [OF c3] by (simp add: existsSync_def)
      have p2': "existsSync f3 (componentFilePath d (name a))"
        using p2 create_file_effect(2) [OF c3] by (simp add: existsSync_def)
      show ?thesis
      proof (cases "update_index f3 (sectionsFragmentsIndexDir d) (barrelLine a)")
        case (Inl e)
        then have "r = Some e" "fs' = f3" using w c1 c2 c3 by (simp_all add: write_files_def)
        then show ?thesis
          using Inl create_file_present [OF p1''] create_file_present [OF p2']
            create_file_present [OF p3]
          by (simp add: write_files_def)
      next
        case (Inr f4)
        then have r: "r = None" "fs' = f4" using w c1 c2 c3 by (simp_all add: write_files_def)
        then have w': "write_files d a fs = (None, fs')" using w by simp
        obtain content where "readFileSync fs' (sectionsFragmentsIndexDir d) = Inr content"
          "string_includes content (barrelLine a)"
          using write_files_effect(5) [OF w'] by (elim exE conjE)
        then have "write_files d a fs' = (None, fs')"
          using write_files_effect(2,3,4) [OF w'] by (intro write_files_again)
        then show ?thesis using r by simp
      qed
    qed
  qed
qed

lemma setup_dirs_keeps:
  assumes "setup_dirs d fs = (r, fs')" and "fs q \<noteq> None"
  shows "fs' q = fs q"
proof -
  have step: "\<And>f f' path. ensure_dir f path = Inr f' \<Longrightarrow> f q \<noteq> None \<Longrightarrow> f' q = f q"
    by (rule ensure_dir_effect(2))
  show ?thesis
  proof (cases "ensure_dir fs (sectionsDir d)")
    case (Inl e)
    then show ?thesis using assms by (simp add: setup_dirs_def)
  next
    case (Inr f1)
    have q1: "f1 q = fs q" using step [OF Inr assms(2)] .
    show ?thesis
    proof (cases "ensure_dir f1 (sectionsFragmentsDir d)")
      case (Inl e)
      then show ?thesis using assms Inr q1 by (simp add: setup_dirs_def)
    next
      case (Inr f2)
      then have "f2 q = f1 q" using step [OF Inr] q1 assms(2) by simp
      then show ?thesis using assms \<open>ensure_dir fs (sectionsDir d) = Inr f1\<close> Inr q1
        by (simp add: setup_dirs_def)
    qed
  qed
qed

lemma setup_dirs_idem:
  assumes s: "setup_dirs d fs = (r, fs')"
  shows "setup_dirs d fs' = (r, fs')"
proof (cases "ensure_dir fs (sectionsDir d)")
  case (Inl e)
  then show ?thesis using s by (simp add: setup_dirs_def)
next
  case (Inr f1)
  note one = this
  have e1: "existsSync f1 (sectionsDir d)" by (rule ensure_dir_effect(1) [OF one])
  show ?thesis
  proof (cases "ensure_dir f1 (sectionsFragmentsDir d)")
    case (Inl e)
    then have "r = Some e" "fs' = f1" using s one by (simp_all add: setup_dirs_def)
    then show ?thesis using Inl e1 by (simp add: setup_dirs_def ensure_dir_def)
  next
    case (Inr f2)
    then have r: "r = None" "fs' = f2" using s one by (simp_all add: setup_dirs_def)
    then have "setup_dirs d fs = (None, fs')" using s by simp
    then have "existsSync fs' (sectionsDir d)" "existsSync fs' (sectionsFragmentsDir d)"
      by (rule setup_dirs_effect(1), rule setup_dirs_effect(2))
    then show ?thesis using r by (simp add: setup_dirs_again)
  qed
qed

lemma main_body_idem:
  assumes run: "main_body formatCode srv depth cwd args (fs, s) = (r, fs', s')"
  shows "\<exists>s''. main_body formatCode srv depth cwd args (fs', s') = (r, fs', s'')"
proof -
  let ?cfg = "parse_args args initial_config"
  show ?thesis
  proof (cases "config_dirs cwd ?cfg")
    case (Inl e)
    then show ?thesis using run by (simp add: main_body_def)
  next
    case (Inr d)
    note dirs = this
    obtain r1 fs1 where su: "setup_dirs d fs = (r1, fs1)" by (cases "setup_dirs d fs")
    have su': "setup_dirs d fs1 = (r1, fs1)" by (rule setup_dirs_idem [OF su])
    show ?thesis
    proof (cases r1)
      case (Some e)
      then have "r = Rejected e" "fs' = fs1" "s' = s"
        using run dirs su by (simp_all add: main_body_def)
      then show ?thesis using dirs su' Some by (simp add: main_body_def)
    next
      case None
      note ok = this
      have ex1: "existsSync fs1 (sectionsDir d)" "existsSync fs1 (sectionsFragmentsDir d)"
        using su ok setup_dirs_effect(1,2) [of d fs fs1] by simp_all
      obtain p s1 where fe: "fetchComponentFields depth ?cfg srv (url ?cfg) (component ?cfg) s = (p, s1)"
        by (cases "fetchComponentFields depth ?cfg srv (url ?cfg) (component ?cfg) s")
      obtain p2 s2 where fe2: "fetchComponentFields depth ?cfg srv (url ?cfg) (component ?cfg) s1 = (p2, s2)"
        by (cases "fetchComponentFields depth ?cfg srv (url ?cfg) (component ?cfg) s1")
      have same: "p2 = p"
        using fe fe2 result_independent(1) [of depth ?cfg srv "url ?cfg" "component ?cfg" s1 s]
        by simp
      show ?thesis
      proof (cases p)
        case Pending
        then have "r = Pending" "fs' = fs1" "s' = s1"
          using run dirs su ok fe by (simp_all add: main_body_def)
        then show ?thesis using dirs su' ok fe2 same Pending by (simp add: main_body_def)
      next
        case (Rejected e)
        then have "r = Rejected e" "fs' = fs1" "s' = s1"
          using run dirs su ok fe by (simp_all add: main_body_def)
        then show ?thesis using dirs su' ok fe2 same Rejected by (simp add: main_body_def)
      next
        case (Resolved attributes)
        note res = this
        show ?thesis
        proof (cases "render formatCode (component ?cfg) attributes")
          case (Inl e)
          then have "r = Rejected e" "fs' = fs1" "s' = s1"
            using run dirs su ok fe res by (simp_all add: main_body_def)
          then show ?thesis using dirs su' ok fe2 same res Inl by (simp add: main_body_def)
        next
          case (Inr a)
          note rend = this
          obtain r2 fs2 where wr: "write_files d a fs1 = (r2, fs2)" by (cases "write_files d a fs1")
          have wr': "write_files d a fs2 = (r2, fs2)" by (rule write_files_idem [OF wr])
          have "fs2 (resolve (sectionsDir d)) \<noteq> None" "fs2 (resolve (sectionsFragmentsDir d)) \<noteq> None"
            using ex1 write_files_keeps [OF wr] by (simp_all add: existsSync_def)
          then have su2: "setup_dirs d fs2 = (None, fs2)"
            by (intro setup_dirs_again) (simp_all add: existsSync_def)
          have out: "r = (case r2 of Some e \<Rightarrow> Rejected e | None \<Rightarrow> Resolved ())" "fs' = fs2" "s' = s1"
            using run dirs su ok fe res rend wr by (simp_all add: main_body_def split: option.splits)
          show ?thesis
            using out dirs su2 fe2 same res rend wr'
            by (simp add: main_body_def split: option.splits)
        qed
      qed
    qed
  qed
qed

lemma config_dirs_string:
  assumes "config_dirs cwd cfg = Inr d"
  shows "\<exists>dr. dir cfg = Str dr"
  using assms by (cases "dir cfg") (simp_all add: config_dirs_def path_join_def)

lemma literal_segments:
  "''graphql'' \<noteq> ''components''" "''components'' \<noteq> ''graphql''"
  "''index.ts'' \<noteq> ''sections''" "''sections'' \<noteq> ''index.ts''"
  by simp_all

lemma index_apart:
  "\<not> prefix (root @ [''graphql'', ''fragments'', ''index.ts'']) (root @ [''components'', ''sections''])"
  "\<not> prefix (root @ [''graphql'', ''fragments'', ''index.ts''])
       (root @ [''graphql'', ''fragments'', ''sections''])"
  "\<not> prefix (root @ [''components'', ''sections'']) (root @ [''graphql'', ''fragments'', ''index.ts''])"
  "\<not> prefix (root @ [''graphql'', ''fragments'', ''sections''])
       (root @ [''graphql'', ''fragments'', ''index.ts''])"
  using literal_segments
  by (simp_all only: same_prefix_prefix Cons_prefix_Cons Nil_prefix prefix_Nil simp_thms list.simps)

lemma index_path_apart:
  assumes cwd: "cwd \<noteq> []" "hd cwd = CHR ''/''"
    and d: "config_dirs cwd cfg = Inr d"
    and n: "processString c = Inr n"
  shows "\<not> prefix (resolve (sectionsFragmentsIndexDir d)) (resolve (sectionsDir d))"
    and "\<not> prefix (resolve (sectionsFragmentsIndexDir d)) (resolve (sectionsFragmentsDir d))"
    and "resolve (fragmentFilePath d (name n)) \<noteq> resolve (sectionsFragmentsIndexDir d)"
    and "resolve (componentFilePath d (name n)) \<noteq> resolve (sectionsFragmentsIndexDir d)"
    and "resolve (componentTypesFilePath d (name n)) \<noteq> resolve (sectionsFragmentsIndexDir d)"
proof -
  obtain dr where dr: "dir cfg = Str dr" using config_dirs_string [OF d] by (elim exE)
  define root where "root = foldl (normalize_step False) (resolve cwd) (split slash dr)"
  from config_dirs_resolved [OF cwd dr, folded root_def] d
  have d1: "resolve (sectionsDir d) = root @ [''components'', ''sections'']"
    and d2: "resolve (sectionsFragmentsDir d) = root @ [''graphql'', ''fragments'', ''sections'']"
    and d3: "resolve (sectionsFragmentsIndexDir d) = root @ [''graphql'', ''fragments'', ''index.ts'']"
    and a1: "sectionsDir d \<noteq> []" "hd (sectionsDir d) = CHR ''/''"
    and a2: "sectionsFragmentsDir d \<noteq> []" "hd (sectionsFragmentsDir d) = CHR ''/''"
    by simp_all
  have nodot: "CHR ''.'' \<notin> set (name n)" "CHR ''.'' \<notin> set (lowerFirst (name n))"
    using processString_name_no_dot [OF n] lowerFirst_no_dot by auto
  have f1: "prefix (root @ [''components'', ''sections'']) (resolve (componentFilePath d (name n)))"
    using file_path_prefix [OF a1 nodot(1), of "''.vue''"] d1
    by (simp add: componentFilePath_def)
  have f2: "prefix (root @ [''components'', ''sections'']) (resolve (componentTypesFilePath d (name n)))"
    using file_path_prefix [OF a1 nodot(2), of "''.types.ts''"] d1
    by (simp add: componentTypesFilePath_def)
  have f3: "prefix (root @ [''graphql'', ''fragments'', ''sections'']) (resolve (fragmentFilePath d (name n)))"
    using file_path_prefix [OF a2 nodot(2), of "''.ts''"] d2
    by (simp add: fragmentFilePath_def)
  show "\<not> prefix (resolve (sectionsFragmentsIndexDir d)) (resolve (sectionsDir d))"
    unfolding d1 d3 by (rule index_apart(1))
  show "\<not> prefix (resolve (sectionsFragmentsIndexDir d)) (resolve (sectionsFragmentsDir d))"
    unfolding d2 d3 by (rule index_apart(2))
  show "resolve (fragmentFilePath d (name n)) \<noteq> resolve (sectionsFragmentsIndexDir d)"
  proof
    assume "resolve (fragmentFilePath d (name n)) = resolve (sectionsFragmentsIndexDir d)"
    then have "prefix (root @ [''graphql'', ''fragments'', ''sections''])
        (root @ [''graphql'', ''fragments'', ''index.ts''])"
      using f3 d3 by simp
    then show False using index_apart(4) [of root] by simp
  qed
  show "resolve (componentFilePath d (name n)) \<noteq> resolve (sectionsFragmentsIndexDir d)"
  proof
    assume "resolve (componentFilePath d (name n)) = resolve (sectionsFragmentsIndexDir d)"
    then have "prefix (root @ [''components'', ''sections''])
        (root @ [''graphql'', ''fragments'', ''index.ts''])"
      using f1 d3 by simp
    then show False using index_apart(3) [of root] by simp
  qed
  show "resolve (componentTypesFilePath d (name n)) \<noteq> resolve (sectionsFragmentsIndexDir d)"
  proof
    assume "resolve (componentTypesFilePath d (name n)) = resolve (sectionsFragmentsIndexDir d)"
    then have "prefix (root @ [''components'', ''sections''])
        (root @ [''graphql'', ''fragments'', ''index.ts''])"
      using f2 d3 by simp
    then show False using index_apart(3) [of root] by simp
  qed
qed

lemma indexCode_not_empty: "indexCode nm \<noteq> []"
  by (simp add: indexCode_def)

text \<open>
  C5. A second run with the same arguments, formatter and CMS ends as the first did and
  leaves every file and directory as the first run left it. When the first run ran to its
  end, the three files exist and the index file contains the export line; when moreover
  no index file existed before the first run, the index file consists of the export line,
  which occurs in it once.
\<close>

theorem run_twice_idempotent:
  assumes run1: "main_body formatCode srv depth cwd args (fs0, s0) = (r, fs1, s1)"
    and asc: "list_all ascii args"
  shows "(\<exists>s2. main_body formatCode srv depth cwd args (fs1, s1) = (r, fs1, s2))
     \<and> (r = Resolved () \<and> cwd \<noteq> [] \<and> hd cwd = CHR ''/'' \<longrightarrow>
          (\<exists>d n. config_dirs cwd (parse_args args initial_config) = Inr d
             \<and> processString (component (parse_args args initial_config)) = Inr n
             \<and> existsSync fs1 (fragmentFilePath d (name n))
             \<and> existsSync fs1 (componentFilePath d (name n))
             \<and> existsSync fs1 (componentTypesFilePath d (name n))
             \<and> (\<exists>content. readFileSync fs1 (sectionsFragmentsIndexDir d) = Inr content
                   \<and> string_includes content (indexCode (name n)))
             \<and> (fs0 (resolve (sectionsFragmentsIndexDir d)) = None \<longrightarrow>
                   readFileSync fs1 (sectionsFragmentsIndexDir d) = Inr (indexCode (name n))
                   \<and> occurrences (indexCode (name n)) (indexCode (name n)) = 1)))"
proof (intro conjI impI)
  show "\<exists>s2. main_body formatCode srv depth cwd args (fs1, s1) = (r, fs1, s2)"
    by (rule main_body_idem [OF run1])
next
  let ?cfg = "parse_args args initial_config"
  assume a: "r = Resolved () \<and> cwd \<noteq> [] \<and> hd cwd = CHR ''/''"
  then have cwd: "cwd \<noteq> []" "hd cwd = CHR ''/''" by simp_all
  have "main_body formatCode srv depth cwd args (fs0, s0) = (Resolved (), fs1, s1)"
    using run1 a by simp
  from main_body_steps [OF this] obtain d fsA attributes a where
    d: "config_dirs cwd ?cfg = Inr d"
    and su: "setup_dirs d fs0 = (None, fsA)"
    and "fetchComponentFields depth ?cfg srv (url ?cfg) (component ?cfg) s0 = (Resolved attributes, s1)"
    and re: "render formatCode (component ?cfg) attributes = Inr a"
    and wr: "write_files d a fsA = (None, fs1)"
    by (elim exE conjE)
  from render_names [OF re] obtain n where
    n: "processString (component ?cfg) = Inr n"
    and nm: "name a = name n"
    and "collection a = collection n"
    and line: "barrelLine a = indexCode (name n)"
    by (elim exE conjE)
  note apart = index_path_apart [OF cwd d n]
  have fresh: "readFileSync fs1 (sectionsFragmentsIndexDir d) = Inr (indexCode (name n))"
    if "fs0 (resolve (sectionsFragmentsIndexDir d)) = None"
  proof -
    have "fsA (resolve (sectionsFragmentsIndexDir d)) = None"
      using setup_dirs_effect(3) [OF su apart(1) apart(2)] that by simp
    then show ?thesis
      using write_files_effect(6) [OF wr] apart(3,4,5) by (simp add: nm line)
  qed
  show "\<exists>d n. config_dirs cwd ?cfg = Inr d
             \<and> processString (component ?cfg) = Inr n
             \<and> existsSync fs1 (fragmentFilePath d (name n))
             \<and> existsSync fs1 (componentFilePath d (name n))
             \<and> existsSync fs1 (componentTypesFilePath d (name n))
             \<and> (\<exists>content. readFileSync fs1 (sectionsFragmentsIndexDir d) = Inr content
                   \<and> string_includes content (indexCode (name n)))
             \<and> (fs0 (resolve (sectionsFragmentsIndexDir d)) = None \<longrightarrow>
                   readFileSync fs1 (sectionsFragmentsIndexDir d) = Inr (indexCode (name n))
                   \<and> occurrences (indexCode (name n)) (indexCode (name n)) = 1)"
  proof (intro exI [of _ d] exI [of _ n] conjI impI)
    show "config_dirs cwd ?cfg = Inr d" by (rule d)
    show "processString (component ?cfg) = Inr n" by (rule n)
    show "existsSync fs1 (fragmentFilePath d (name n))"
      using write_files_effect(2) [OF wr] by (simp add: nm)
    show "existsSync fs1 (componentFilePath d (name n))"
      using write_files_effect(3) [OF wr] by (simp add: nm)
    show "existsSync fs1 (componentTypesFilePath d (name n))"
      using write_files_effect(4) [OF wr] by (simp add: nm)
    show "\<exists>content. readFileSync fs1 (sectionsFragmentsIndexDir d) = Inr content
                   \<and> string_includes content (indexCode (name n))"
      using write_files_effect(5) [OF wr] by (simp add: line)
  next
    assume "fs0 (resolve (sectionsFragmentsIndexDir d)) = None"
    then show "readFileSync fs1 (sectionsFragmentsIndexDir d) = Inr (indexCode (name n))"
      by (rule fresh)
  next
    show "occurrences (indexCode (name n)) (indexCode (name n)) = 1"
      by (rule occurrences_self [OF indexCode_not_empty])
  qed
qed

lemma example_run_resolves:
  "fst (main_body example_formatter example_server 2 ''/work'' example_args (example_fs, no_io))
     = Resolved ()"
  by code_simp

theorem run_twice_idempotent_witness:
  "list_all ascii example_args
   \<and> fst (main_body example_formatter example_server 2 ''/work'' example_args (example_fs, no_io))
       = Resolved ()
   \<and> example_fs (resolve ''/work/foo/graphql/fragments/index.ts'') = None
   \<and> (\<exists>s2. main_body example_formatter example_server 2 ''/work'' example_args
          (fst (snd (main_body example_formatter example_server 2 ''/work'' example_args
                      (example_fs, no_io))),
           snd (snd (main_body example_formatter example_server 2 ''/work'' example_args
                      (example_fs, no_io))))
        = (Resolved (),
           fst (snd (main_body example_formatter example_server 2 ''/work'' example_args
                      (example_fs, no_io))), s2))
   \<and> readFileSync
         (fst (snd (main_body example_formatter example_server 2 ''/work'' example_args
                      (example_fs, no_io))))
         ''/work/foo/graphql/fragments/index.ts''
       = Inr ''export { Page } from './sections/page';\<newline>''
   \<and> occurrences ''export { Page } from './sections/page';\<newline>''
         ''export { Page } from './sections/page';\<newline>'' = 1"
proof -
  let ?W = "main_body example_formatter example_server 2 ''/work'' example_args (example_fs, no_io)"
  have asc: "list_all ascii example_args" by code_simp
  have run1: "?W = (fst ?W, fst (snd ?W), snd (snd ?W))" by simp
  have res: "fst ?W = Resolved ()" by (rule example_run_resolves)
  have absent: "example_fs (resolve ''/work/foo/graphql/fragments/index.ts'') = None"
    by code_simp
  have cwd: "''/work'' \<noteq> [] \<and> hd ''/work'' = CHR ''/''" by simp
  have dv: "config_dirs ''/work'' (parse_args example_args initial_config) =
      Inr \<lparr> sectionsDir = ''/work/foo/components/sections'',
            sectionsFragmentsDir = ''/work/foo/graphql/fragments/sections'',
            sectionsFragmentsIndexDir = ''/work/foo/graphql/fragments/index.ts'' \<rparr>"
    by code_simp
  have nv: "processString (component (parse_args example_args initial_config)) =
      Inr \<lparr> name = ''Page'', collection = ''ComponentNsPage'' \<rparr>"
    by code_simp
  have line: "indexCode ''Page'' = ''export { Page } from './sections/page';\<newline>''"
    by code_simp
  from run_twice_idempotent [OF run1 asc, THEN conjunct2, THEN mp, OF conjI [OF res cwd]]
  obtain d n content where
    d: "config_dirs ''/work'' (parse_args example_args initial_config) = Inr d"
    and n: "processString (component (parse_args example_args initial_config)) = Inr n"
    and "existsSync (fst (snd ?W)) (fragmentFilePath d (name n))"
    and "existsSync (fst (snd ?W)) (componentFilePath d (name n))"
    and "existsSync (fst (snd ?W)) (componentTypesFilePath d (name n))"
    and "readFileSync (fst (snd ?W)) (sectionsFragmentsIndexDir d) = Inr content"
    and "string_includes content (indexCode (name n))"
    and fresh: "example_fs (resolve (sectionsFragmentsIndexDir d)) = None \<longrightarrow>
                   readFileSync (fst (snd ?W)) (sectionsFragmentsIndexDir d) = Inr (indexCode (name n))
                   \<and> occurrences (indexCode (name n)) (indexCode (name n)) = 1"
    by (elim exE conjE)
  have dn: "sectionsFragmentsIndexDir d = ''/work/foo/graphql/fragments/index.ts''"
      "name n = ''Page''"
    using d n dv nv by auto
  have content: "readFileSync (fst (snd ?W)) ''/work/foo/graphql/fragments/index.ts''
       = Inr ''export { Page } from './sections/page';\<newline>''"
    using fresh absent by (simp only: dn line)
  have once: "occurrences ''export { Page } from './sections/page';\<newline>''
         ''export { Page } from './sections/page';\<newline>'' = 1"
    by code_simp
  from run_twice_idempotent [OF run1 asc, THEN conjunct1]
  have "\<exists>s2. main_body example_formatter example_server 2 ''/work'' example_args
          (fst (snd ?W), snd (snd ?W)) = (Resolved (), fst (snd ?W), s2)"
    by (simp only: res)
  then show ?thesis
    using asc res absent content once by (intro conjI)
qed

lemma same_answers_mono: "same_answers cfg srv cfg' srv' M \<Longrightarrow> N \<subseteq># M \<Longrightarrow> same_answers cfg srv cfg' srv' N"
  unfolding same_answers_def by (meson mset_subset_eqD)

lemma parseFields_requests:
  "Object_keys a = Inr keys \<Longrightarrow>
   new_requests (parseFields n cfg srv a) = new_requests (fieldPromises n cfg srv a keys)"
  by (simp add: new_requests_def parseFields.simps split: prod.splits)

lemma fieldPromises_requests:
  "new_requests (fieldPromises n cfg srv a (k # ks)) =
     new_requests (fieldPromise n cfg srv a k) + new_requests (fieldPromises n cfg srv a ks)"
proof -
  obtain p s1 where p: "fieldPromise n cfg srv a k no_io = (p, s1)"
    by (cases "fieldPromise n cfg srv a k no_io")
  obtain ps s2 where ps: "fieldPromises n cfg srv a ks s1 = (ps, s2)"
    by (cases "fieldPromises n cfg srv a ks s1")
  have "s2 = io_append s1 (snd (fieldPromises n cfg srv a ks no_io))"
    using effects_appended(3) [of n cfg srv a ks s1] ps by simp
  then show ?thesis
    using p ps by (simp add: new_requests_def io_append_def)
qed

lemma fieldPromise_requests_other:
  "get_path a [k, ''type''] = Inr t \<Longrightarrow> t \<noteq> Str ''component'' \<Longrightarrow>
   new_requests (fieldPromise n cfg srv a k) = {#}"
  by (simp add: new_requests_def fieldPromise.simps no_io_def del: get_path.simps)

lemma parseFields_fst:
  "Object_keys a = Inr keys \<Longrightarrow>
   fst (parseFields n cfg srv a s) =
     map_promise Arr (Promise_all (fst (fieldPromises n cfg srv a keys s)))"
  by (simp add: parseFields.simps split: prod.splits)

lemma fieldPromises_fst_Cons:
  "fst (fieldPromises n cfg srv a (k # ks) s) =
     fst (fieldPromise n cfg srv a k s)
       # fst (fieldPromises n cfg srv a ks (snd (fieldPromise n cfg srv a k s)))"
  by (simp split: prod.splits)

lemma fieldPromise_component_fst:
  "get_path a [k, ''type''] = Inr (Str ''component'') \<Longrightarrow>
   get_path a [k, ''component''] = Inr c \<Longrightarrow>
   fst (fieldPromise n cfg srv a k s) =
     (case fst (fetchComponentFields n cfg srv (url cfg) c s) of
        Resolved componentFields \<Rightarrow>
          (case array_join componentFields ''\<newline>      '' of
             Inl e \<Rightarrow> Rejected e
           | Inr body \<Rightarrow> Resolved (Str (k @ '' {\<newline>      '' @ body @ ''\<newline>    }'')))
      | Rejected e \<Rightarrow> Rejected e
      | Pending \<Rightarrow> Pending)"
  by (simp add: fieldPromise.simps split: prod.splits promise.splits sum.splits
      del: get_path.simps array_join.simps)

lemma same_answers_results:
  fixes s :: io and cfg' :: config and srv' :: server
  shows "u = url cfg \<longrightarrow>
         same_answers cfg srv cfg' srv' (new_requests (fetchComponentFields n cfg srv u c)) \<longrightarrow>
         (\<forall>s'. fst (fetchComponentFields n cfg' srv' (url cfg') c s') =
               fst (fetchComponentFields n cfg srv u c s))"
    and "same_answers cfg srv cfg' srv' (new_requests (parseFields n cfg srv a)) \<longrightarrow>
         (\<forall>s'. fst (parseFields n cfg' srv' a s') = fst (parseFields n cfg srv a s))"
    and "same_answers cfg srv cfg' srv' (new_requests (fieldPromises n cfg srv a ks)) \<longrightarrow>
         (\<forall>s'. fst (fieldPromises n cfg' srv' a ks s') = fst (fieldPromises n cfg srv a ks s))"
    and "same_answers cfg srv cfg' srv' (new_requests (fieldPromise n cfg srv a k)) \<longrightarrow>
         (\<forall>s'. fst (fieldPromise n cfg' srv' a k s') = fst (fieldPromise n cfg srv a k s))"
proof (induct n cfg srv u c s and n cfg srv a s and n cfg srv a ks s and n cfg srv a k s
    rule: fetchComponentFields_parseFields_fieldPromises_fieldPromise.induct)
  case (1 cfg srv u c s)
  show ?case by simp
next
  case (2 n cfg srv u c s)
  show ?case
  proof (intro impI allI)
    fix s'
    assume u: "u = url cfg"
      and same: "same_answers cfg srv cfg' srv' (new_requests (fetchComponentFields (Suc n) cfg srv u c))"
    have "request_url (url cfg) c \<in># new_requests (fetchComponentFields (Suc n) cfg srv u c)"
      using u by (simp add: fetch_requests del: fetchComponentFields.simps)
    then have first: "srv' (request_url (url cfg') c) = srv (request_url u c)"
      using same u by (simp add: same_answers_def)
    then have ax: "axios_get srv' (request_url (url cfg') c) = axios_get srv (request_url u c)"
      by (simp add: axios_get_def)
    show "fst (fetchComponentFields (Suc n) cfg' srv' (url cfg') c s') =
          fst (fetchComponentFields (Suc n) cfg srv u c s)"
    proof (cases "axios_get srv (request_url u c)")
      case (Inl e)
      then show ?thesis using ax by simp
    next
      case (Inr response)
      note resp = this
      show ?thesis
      proof (cases "get_path response [''data'', ''data'', ''schema'', ''attributes'']")
        case (Inl e)
        then show ?thesis using ax resp by (simp del: get_path.simps)
      next
        case (Inr attributes)
        have "new_requests (parseFields n cfg srv attributes)
                \<subseteq># new_requests (fetchComponentFields (Suc n) cfg srv u c)"
          using resp Inr by (simp add: fetch_requests del: fetchComponentFields.simps get_path.simps)
        then have "same_answers cfg srv cfg' srv' (new_requests (parseFields n cfg srv attributes))"
          using same by (rule same_answers_mono [rotated])
        with 2 [OF refl refl resp Inr]
        have "\<forall>s'. fst (parseFields n cfg' srv' attributes s') =
                fst (parseFields n cfg srv attributes (s\<lparr>requests := add_mset (request_url u c) (requests s)\<rparr>))"
          by simp
        then show ?thesis using ax resp Inr by (simp del: get_path.simps)
      qed
    qed
  qed
next
  case (3 n cfg srv attributes s)
  show ?case
  proof (cases "Object_keys attributes")
    case (Inl e)
    then show ?thesis by (simp add: parseFields.simps)
  next
    case (Inr keys)
    show ?thesis
    proof (intro impI allI)
      fix s'
      assume "same_answers cfg srv cfg' srv' (new_requests (parseFields n cfg srv attributes))"
      then have "same_answers cfg srv cfg' srv' (new_requests (fieldPromises n cfg srv attributes keys))"
        by (simp add: parseFields_requests [OF Inr])
      with 3 [OF Inr]
      have "fst (fieldPromises n cfg' srv' attributes keys s') =
            fst (fieldPromises n cfg srv attributes keys s)"
        by simp
      then show "fst (parseFields n cfg' srv' attributes s') = fst (parseFields n cfg srv attributes s)"
        by (simp add: parseFields_fst [OF Inr])
    qed
  qed
next
  case (4 n cfg srv attributes s)
  show ?case by simp
next
  case (5 n cfg srv attributes field rest s)
  show ?case
  proof (intro impI allI)
    fix s'
    assume same: "same_answers cfg srv cfg' srv'
        (new_requests (fieldPromises n cfg srv attributes (field # rest)))"
    have one: "same_answers cfg srv cfg' srv' (new_requests (fieldPromise n cfg srv attributes field))"
      using same by (rule same_answers_mono) (simp add: fieldPromises_requests)
    have more: "same_answers cfg srv cfg' srv' (new_requests (fieldPromises n cfg srv attributes rest))"
      using same by (rule same_answers_mono) (simp add: fieldPromises_requests)
    have pp: "fst (fieldPromise n cfg' srv' attributes field s') =
              fst (fieldPromise n cfg srv attributes field s)"
      using 5(1) one by simp
    have "fst (fieldPromises n cfg' srv' attributes rest (snd (fieldPromise n cfg' srv' attributes field s'))) =
          fst (fieldPromises n cfg srv attributes rest (snd (fieldPromise n cfg srv attributes field s)))"
      using 5(2) [of "fst (fieldPromise n cfg srv attributes field s)"
          "snd (fieldPromise n cfg srv attributes field s)"] more by simp
    then show "fst (fieldPromises n cfg' srv' attributes (field # rest) s') =
               fst (fieldPromises n cfg srv attributes (field # rest) s)"
      using pp by (simp only: fieldPromises_fst_Cons)
  qed
next
  case (6 n cfg srv attributes field s)
  show ?case
  proof (cases "get_path attributes [field, ''type'']")
    case (Inl e)
    then show ?thesis by (simp add: fieldPromise.simps del: get_path.simps)
  next
    case (Inr t)
    note ty = this
    show ?thesis
    proof (cases "t = Str ''component''")
      case False
      then show ?thesis using ty by (simp add: fieldPromise.simps del: get_path.simps)
    next
      case True
      show ?thesis
      proof (cases "get_path attributes [field, ''component'']")
        case (Inl e)
        then show ?thesis using ty True by (simp add: fieldPromise.simps del: get_path.simps)
      next
        case (Inr c)
        show ?thesis
        proof (intro impI allI)
          fix s'
          assume "same_answers cfg srv cfg' srv' (new_requests (fieldPromise n cfg srv attributes field))"
          then have "same_answers cfg srv cfg' srv'
              (new_requests (fetchComponentFields n cfg srv (url cfg) c))"
            using ty True Inr by (simp add: component_field_requests del: get_path.simps)
          with 6 [OF ty _ True Inr] True
          have "fst (fetchComponentFields n cfg' srv' (url cfg') c s') =
                fst (fetchComponentFields n cfg srv (url cfg) c s)"
            by simp
          then show "fst (fieldPromise n cfg' srv' attributes field s') =
                     fst (fieldPromise n cfg srv attributes field s)"
            using ty True Inr by (simp add: fieldPromise_component_fst del: get_path.simps)
        qed
      qed
    qed
  qed
qed

lemma main_body_produced:
  assumes "main_body formatCode srv depth cwd args (fs, s) = (Resolved (), fs1, s1)"
  shows "\<exists>d fsA a. produced formatCode srv depth (parse_args args initial_config) s = Resolved a
           \<and> setup_dirs d fs = (None, fsA) \<and> write_files d a fsA = (None, fs1)"
proof -
  let ?cfg = "parse_args args initial_config"
  from main_body_steps [OF assms] obtain d fsA attributes a where
    "config_dirs cwd ?cfg = Inr d"
    and su: "setup_dirs d fs = (None, fsA)"
    and fe: "fetchComponentFields depth ?cfg srv (url ?cfg) (component ?cfg) s = (Resolved attributes, s1)"
    and re: "render formatCode (component ?cfg) attributes = Inr a"
    and wr: "write_files d a fsA = (None, fs1)"
    by (elim exE conjE)
  have "produced formatCode srv depth ?cfg s = Resolved a"
    using fe re by (simp add: produced_def)
  then show ?thesis using su wr by (intro exI [of _ d] exI [of _ fsA] exI [of _ a] conjI)
qed

text \<open>
  C10. The artifacts that a run produces (the names, the three formatted texts and the
  export line) do not depend on the state of the console and of the requests, on the
  base URL or on the target directory: two configurations with the same component
  identifier, whose CMSs give the same answer for every component that the first run
  requests, produce the same artifacts with the same formatter; and the files that a
  completed run of the main function writes are written from these artifacts.
\<close>

theorem generation_deterministic:
  assumes id: "component cfg' = component cfg"
    and same: "same_answers cfg srv cfg' srv'
        (new_requests (fetchComponentFields depth cfg srv (url cfg) (component cfg)))"
    and asc: "\<forall>cid. component cfg = Str cid \<longrightarrow> ascii cid"
  shows "produced formatCode srv' depth cfg' s' = produced formatCode srv depth cfg s
     \<and> (\<forall>cwd args fs fs1 s1.
          cfg = parse_args args initial_config
          \<and> main_body formatCode srv depth cwd args (fs, s) = (Resolved (), fs1, s1) \<longrightarrow>
          (\<exists>d fsA a. produced formatCode srv depth cfg s = Resolved a
              \<and> setup_dirs d fs = (None, fsA) \<and> write_files d a fsA = (None, fs1)))"
proof (intro conjI allI impI)
  have "fst (fetchComponentFields depth cfg' srv' (url cfg') (component cfg) s') =
        fst (fetchComponentFields depth cfg srv (url cfg) (component cfg) s)"
    using same_answers_results(1) [of "url cfg" cfg srv cfg' srv' depth "component cfg" s] same
    by simp
  then show "produced formatCode srv' depth cfg' s' = produced formatCode srv depth cfg s"
    by (simp add: produced_def id cong: promise.case_cong)
next
  fix cwd args fs fs1 s1
  assume "cfg = parse_args args initial_config
          \<and> main_body formatCode srv depth cwd args (fs, s) = (Resolved (), fs1, s1)"
  then show "\<exists>d fsA a. produced formatCode srv depth cfg s = Resolved a
              \<and> setup_dirs d fs = (None, fsA) \<and> write_files d a fsA = (None, fs1)"
    using main_body_produced [of formatCode srv depth cwd args fs s fs1 s1] by simp
qed

lemma example_requests:
  "new_requests (fetchComponentFields 2 example_config example_server
      (url example_config) (component example_config)) =
   {#''http://localhost:1337/api/content-type-builder/components/ns.page'',
     ''http://localhost:1337/api/content-type-builder/components/ns.card''#}"
  by code_simp

lemma example_same_answers:
  "same_answers example_config example_server other_config other_server
     (new_requests (fetchComponentFields 2 example_config example_server
        (url example_config) (component example_config)))"
  unfolding example_requests same_answers_def
proof (intro allI impI)
  fix c
  assume "request_url (url example_config) c \<in>#
     {#''http://localhost:1337/api/content-type-builder/components/ns.page'',
       ''http://localhost:1337/api/content-type-builder/components/ns.card''#}"
  then have "to_string c = ''ns.page'' \<or> to_string c = ''ns.card''"
    by (simp add: request_url_def example_config_def)
  then show "other_server (request_url (url other_config) c) =
             example_server (request_url (url example_config) c)"
    by (auto simp: request_url_def example_config_def other_config_def other_server_def
        example_server_def)
qed

theorem generation_deterministic_witness:
  "component other_config = component example_config
   \<and> component example_config = Str ''ns.page'' \<and> ascii ''ns.page''
   \<and> new_requests (fetchComponentFields 2 example_config example_server
          (url example_config) (component example_config)) =
       {#''http://localhost:1337/api/content-type-builder/components/ns.page'',
         ''http://localhost:1337/api/content-type-builder/components/ns.card''#}
   \<and> other_server ''http://127.0.0.1:1337/api/content-type-builder/components/ns.page'' =
       example_server ''http://localhost:1337/api/content-type-builder/components/ns.page''
   \<and> other_server ''http://127.0.0.1:1337/api/content-type-builder/components/ns.card'' =
       example_server ''http://localhost:1337/api/content-type-builder/components/ns.card''
   \<and> produced example_formatter other_server 2 other_config
        \<lparr> requests = {#''earlier''#}, console = {#} \<rparr>
       = produced example_formatter example_server 2 example_config no_io
   \<and> map_promise barrelLine (produced example_formatter example_server 2 example_config no_io)
       = Resolved ''export { Page } from './sections/page';\<newline>''"
proof -
  have id: "component other_config = component example_config" by code_simp
  have asc: "\<forall>cid. component example_config = Str cid \<longrightarrow> ascii cid"
    by (simp add: example_config_def ascii_def)
  have line: "map_promise barrelLine (produced example_formatter example_server 2 example_config no_io)
       = Resolved ''export { Page } from './sections/page';\<newline>''"
    by code_simp
  from generation_deterministic [OF id example_same_answers asc, THEN conjunct1]
  have "produced example_formatter other_server 2 other_config
        \<lparr> requests = {#''earlier''#}, console = {#} \<rparr>
       = produced example_formatter example_server 2 example_config no_io" .
  moreover have "component example_config = Str ''ns.page''" "ascii ''ns.page''"
    by code_simp+
  moreover have
    "other_server ''http://127.0.0.1:1337/api/content-type-builder/components/ns.page'' =
       example_server ''http://localhost:1337/api/content-type-builder/components/ns.page''"
    "other_server ''http://127.0.0.1:1337/api/content-type-builder/components/ns.card'' =
       example_server ''http://localhost:1337/api/content-type-builder/components/ns.card''"
    by code_simp+
  ultimately show ?thesis using id example_requests line by (intro conjI)
qed

end
